theory Spec2Isabelle
  imports Main "HOL-Library.Sublist" "HOL-Library.List_Lexorder" "HOL-Library.Char_ord"
    "HOL-Library.AList"
begin

section \<open>What is embedded\<close>

text \<open>
  Of \<open>gut/shell.py\<close>: the functions \<open>get_tail_hash\<close> and \<open>assert_folder_empty\<close>,
  and of \<open>sync\<close> the closures \<open>cross_init\<close> and \<open>commit_and_update\<close> and the
  blocks of lines 237 to 269 (the decision on the two tail hashes), 319 to 327 (what
  precedes the loop) and 329 to 356 (the loop). In this revision \<open>sync\<close> has an
  unconditional \<open>return\<close> at line 202, after it has run \<open>pwd\<close> on the remote side,
  so a call of \<open>sync\<close> does not reach these lines; they are embedded as they are
  written. The modules \<open>gut_cmd\<close>, \<open>util\<close> and \<open>terminal\<close> are not part of the
  file and are parameters of the model.
\<close>

section \<open>Strings and paths\<close>

text \<open>
  Python strings are modelled as \<^typ>\<open>string\<close>, one \<^typ>\<open>char\<close> per code point
  (code points below 256). Strings are compared as Python compares them: lexicographically
  by code point, a proper prefix being smaller.
\<close>

datatype exn = ProcessExecutionError | IndexError | SystemExit | OtherException

text \<open>
  \<open>str.isspace\<close> on the code points below 256, and \<open>str.strip()\<close> without argument.
\<close>

definition isspace :: "char \<Rightarrow> bool" where
  "isspace c =
     (let n = (of_char c :: nat)
      in (9 \<le> n \<and> n \<le> 13) \<or> (28 \<le> n \<and> n \<le> 32) \<or> n = 133 \<or> n = 160)"

definition strip :: "string \<Rightarrow> string" where
  "strip s = rev (dropWhile isspace (rev (dropWhile isspace s)))"

text \<open>
  \<open>s.rpartition(sep)\<close> for a separator of one character: the part before the last
  occurrence of the separator, the separator, the part after it; two empty strings and
  \<open>s\<close> when the separator does not occur.
\<close>

definition rpartition :: "char \<Rightarrow> string \<Rightarrow> string \<times> string \<times> string" where
  "rpartition sep s =
     (if sep \<in> set s
      then (rev (tl (dropWhile (\<lambda>c. c \<noteq> sep) (rev s))), [sep],
            rev (takeWhile (\<lambda>c. c \<noteq> sep) (rev s)))
      else ([], [], s))"

text \<open>
  \<open>s.split(sep)\<close> for a separator of one character: the pieces between the occurrences
  of the separator; never the empty list.
\<close>

fun split :: "char \<Rightarrow> string \<Rightarrow> string list" where
  "split sep [] = [[]]"
| "split sep (c # cs) =
     (if c = sep then [] # split sep cs
      else (case split sep cs of p # ps \<Rightarrow> (c # p) # ps | [] \<Rightarrow> [[c]]))"

text \<open>\<open>sep.join(parts)\<close>, which undoes \<open>split\<close>.\<close>

fun join :: "char \<Rightarrow> string list \<Rightarrow> string" where
  "join sep [] = []"
| "join sep [p] = p"
| "join sep (p # q # ps) = p @ sep # join sep (q # ps)"

text \<open>
  \<open>os.path.commonprefix(m)\<close>:
  \<^verbatim>\<open>
    if not m: return ''
    s1 = min(m)
    s2 = max(m)
    for i, c in enumerate(s1):
        if c != s2[i]:
            return s1[:i]
    return s1
  \<close>
  This is the function of Python 3.4 and 3.5 (the file's \<open>asyncio.async\<close> no longer
  parses from 3.7 on); \<open>min\<close> and \<open>max\<close> accept the set that \<open>commit_and_update\<close>
  passes. (From 3.6 on the function first reads \<open>m[0]\<close>, which a set does not
  support.) The loop runs over the indices of \<open>s1\<close>; reading \<open>s2[i]\<close> past the end
  of \<open>s2\<close> raises \<open>IndexError\<close>.
\<close>

function commonprefix_loop :: "string \<Rightarrow> string \<Rightarrow> nat \<Rightarrow> exn + string" where
  "commonprefix_loop s1 s2 i =
     (if i < length s1
      then (if i < length s2
            then (if s1 ! i \<noteq> s2 ! i then Inr (take i s1)
                  else commonprefix_loop s1 s2 (Suc i))
            else Inl IndexError)
      else Inr s1)"
  by pat_completeness auto
termination
  by (relation "measure (\<lambda>(s1, s2, i). length s1 - i)") auto

declare commonprefix_loop.simps [simp del]

definition commonprefix :: "string set \<Rightarrow> exn + string" where
  "commonprefix m =
     (if m = {} then Inr []
      else commonprefix_loop (Min m) (Max m) 0)"

text \<open>
  The staging prefix of \<open>commit_and_update\<close> (lines 290 to 300):
  \<^verbatim>\<open>
    if not changed_paths:
        prefix = '.'
    else:
        separator = '\\' if src_context._is_windows else '/'
        prefix = os.path.commonprefix(changed_paths).rpartition(separator)[0] or '.'
  \<close>
  \<open>changed_paths\<close> is \<open>None\<close> (the default) or a set of paths.
\<close>

definition separator :: "bool \<Rightarrow> char" where
  "separator is_windows = (if is_windows then CHR 0x5C else CHR ''/'')"

definition staging_prefix :: "bool \<Rightarrow> string set option \<Rightarrow> exn + string" where
  "staging_prefix is_windows changed_paths =
     (case changed_paths of
        None \<Rightarrow> Inr ''.''
      | Some m \<Rightarrow>
          if m = {} then Inr ''.''
          else (case commonprefix m of
                  Inl e \<Rightarrow> Inl e
                | Inr cp \<Rightarrow>
                    (let trimmed = fst (rpartition (separator is_windows) cp)
                     in Inr (if trimmed = [] then ''.'' else trimmed))))"

text \<open>
  What the specification asks of the staging prefix: the root \<open>.\<close> is above every path;
  any other directory is above a path when the path is the directory itself or continues
  it with a separator.
\<close>

definition ancestor_or_equal :: "char \<Rightarrow> string \<Rightarrow> string \<Rightarrow> bool" where
  "ancestor_or_equal sep d p \<longleftrightarrow> d = ''.'' \<or> d = p \<or> prefix (d @ [sep]) p"


section \<open>The session and its collaborators\<close>

text \<open>
  The two execution contexts of a session, \<open>local\<close> and \<open>remote\<close>. The watchers tag
  their events with the system names \<open>'local'\<close> and \<open>'remote'\<close>, which stay strings.
\<close>

datatype node = Local | Remote

text \<open>
  What \<open>sync\<close> holds for the whole session: the two paths, the two ports taken from
  \<open>util.find_open_ports\<close>, the attributes \<open>_is_windows\<close> and \<open>_name_ansi\<close> that
  \<open>init_context\<close> sets on each context, and \<open>os.sep\<close> of the machine that runs \<open>sync\<close>.
\<close>

record session =
  local_path :: string
  remote_path :: string
  gutd_bind_port :: nat
  gutd_connect_port :: nat
  is_windows :: "node \<Rightarrow> bool"
  name_ansi :: "node \<Rightarrow> string"
  os_sep :: char

text \<open>
  Every call that leaves \<open>sync\<close> is recorded, in order, as an action: the commands of
  \<open>gut_cmd\<close> (context, path and further arguments), \<open>util.watch_for_changes\<close>,
  \<open>time.sleep\<close>, \<open>status.out\<close> and \<open>traceback.print_exc\<close>.
\<close>

datatype action =
    Daemon node string "string option" nat
  | Init node string
  | Ensure_initial_commit node string
  | Setup_origin node string "string option" nat
  | Pull node string
  | Commit node string string bool
  | Watch_for_changes node string string
  | Sleep nat
  | Status_out string
  | Print_exc

text \<open>
  The collaborators are not part of \<open>shell.py\<close>; they are parameters of the model. A
  command of \<open>gut_cmd\<close> or \<open>util\<close> answers with an exception or a value, and the
  answer may depend on everything done so far, as may the answers of the file system and
  of the \<open>rev-list\<close> query (exit code and output). \<open>color_commit\<close> of the terminal module
  and the text of \<open>context.path(p)\<close> are pure.
\<close>

record world =
  backend :: "action list \<Rightarrow> action \<Rightarrow> exn + bool"
  path_exists :: "action list \<Rightarrow> node \<Rightarrow> string \<Rightarrow> bool"
  path_isdir :: "action list \<Rightarrow> node \<Rightarrow> string \<Rightarrow> bool"
  path_list :: "action list \<Rightarrow> node \<Rightarrow> string \<Rightarrow> string list"
  gut_marker_exists :: "action list \<Rightarrow> node \<Rightarrow> string \<Rightarrow> bool"
  rev_list :: "action list \<Rightarrow> node \<Rightarrow> string \<Rightarrow> int \<times> string"
  color_commit :: "string option \<Rightarrow> string"
  path_str :: "node \<Rightarrow> string \<Rightarrow> string"

text \<open>
  A piece of \<open>sync\<close> takes the actions done so far and gives an exception or a value,
  with the actions extended by its own.
\<close>

type_synonym 'a prog = "action list \<Rightarrow> (exn + 'a) \<times> action list"

definition returns :: "'a \<Rightarrow> 'a prog" where
  "returns x tr = (Inr x, tr)"

definition raise :: "exn \<Rightarrow> 'a prog" where
  "raise e tr = (Inl e, tr)"

definition pbind :: "'a prog \<Rightarrow> ('a \<Rightarrow> 'b prog) \<Rightarrow> 'b prog" where
  "pbind m f tr = (case m tr of (Inl e, tr') \<Rightarrow> (Inl e, tr') | (Inr x, tr') \<Rightarrow> f x tr')"

definition pthen :: "'a prog \<Rightarrow> 'b prog \<Rightarrow> 'b prog" where
  "pthen m k = pbind m (\<lambda>_. k)"

definition call :: "world \<Rightarrow> action \<Rightarrow> bool prog" where
  "call w a tr = (backend w tr a, tr @ [a])"

definition run :: "world \<Rightarrow> action \<Rightarrow> unit prog" where
  "run w a = pbind (call w a) (\<lambda>_. returns ())"

definition emit :: "action \<Rightarrow> unit prog" where
  "emit a tr = (Inr (), tr @ [a])"

definition status_out :: "string \<Rightarrow> unit prog" where
  "status_out msg = emit (Status_out msg)"

definition nl :: string where
  "nl = [CHR 0x0A]"

text \<open>
  Modelled from the spec: \<open>terminal.shutdown\<close> is not in \<open>shell.py\<close>. The
  specification calls what follows the two fatal diagnostics an abort of the whole
  process, so \<open>shutdown()\<close> raises \<open>SystemExit\<close> and nothing after it runs. (In
  \<open>main\<close> the handler of \<open>SystemExit\<close> calls \<open>shutdown(exit=False)\<close>: exiting is what
  the function does unless told otherwise.)
\<close>

definition shutdown :: "unit prog" where
  "shutdown = raise SystemExit"

text \<open>Python's truth value of a tail hash: \<open>None\<close> and the empty string are false.\<close>

definition truthy :: "string option \<Rightarrow> bool" where
  "truthy h = (case h of None \<Rightarrow> False | Some x \<Rightarrow> x \<noteq> [])"

section \<open>\<open>get_tail_hash\<close> and \<open>assert_folder_empty\<close>\<close>

text \<open>
  \<^verbatim>\<open>
    path = context.path(sync_path)
    if (path / '.gut').exists():
        with context.cwd(path):
            return gut_cmd.gut(context)['rev-list', '--max-parents=0', 'HEAD'](retcode=None).strip() or None
    return None
  \<close>
  With \<open>retcode=None\<close> the exit code of the query is not looked at.
\<close>

definition get_tail_hash :: "world \<Rightarrow> node \<Rightarrow> string \<Rightarrow> string option prog" where
  "get_tail_hash w context sync_path tr =
     (if gut_marker_exists w tr context sync_path
      then (let out = strip (snd (rev_list w tr context sync_path))
            in (Inr (if out = [] then None else Some out), tr))
      else (Inr None, tr))"

text \<open>
  \<^verbatim>\<open>
    path = context.path(_path)
    if path.exists() and ((not path.isdir()) or len(path.list()) > 0):
        status = Writer(context)
        status.out('(@error)Refusing to initialize (@path)%s (@error) on %s' % (path, context._name_ansi))
        status.out('(@error)as it is not an empty directory. Move or delete it manually first.\n')
        shutdown()
  \<close>
\<close>

definition refuses :: "world \<Rightarrow> action list \<Rightarrow> node \<Rightarrow> string \<Rightarrow> bool" where
  "refuses w tr context p \<longleftrightarrow>
     path_exists w tr context p \<and>
     (\<not> path_isdir w tr context p \<or> length (path_list w tr context p) > 0)"

definition assert_folder_empty :: "world \<Rightarrow> session \<Rightarrow> node \<Rightarrow> string \<Rightarrow> unit prog" where
  "assert_folder_empty w s context p tr =
     (if refuses w tr context p
      then pthen (status_out (''(@error)Refusing to initialize (@path)'' @ path_str w context p
                     @ '' (@error) on '' @ name_ansi s context))
          (pthen (status_out (''(@error)as it is not an empty directory. Move or delete it manually first.'' @ nl))
                 shutdown) tr
      else returns () tr)"

section \<open>The bootstrap\<close>

text \<open>
  \<open>cross_init\<close> (lines 227 to 235); \<open>tail_hash\<close> is the variable of \<open>sync\<close> that the
  closure reads when it runs, and the two ports are those of the session.
\<close>

definition cross_init ::
  "world \<Rightarrow> session \<Rightarrow> string option \<Rightarrow> node \<Rightarrow> string \<Rightarrow> node \<Rightarrow> string \<Rightarrow> unit prog" where
  "cross_init w s tail_hash src_context src_path dest_context dest_path =
     pthen (run w (Daemon src_context src_path tail_hash (gutd_bind_port s)))
    (pthen (run w (Init dest_context dest_path))
    (pthen (run w (Setup_origin dest_context dest_path tail_hash (gutd_connect_port s)))
    (pthen (emit (Sleep 2))
    (pthen (run w (Pull dest_context dest_path))
           (run w (Daemon dest_context dest_path tail_hash (gutd_bind_port s)))))))"

text \<open>
  Lines 237 to 269 of \<open>sync\<close>: the decision on the two tail hashes and what each branch
  does. The value is the variable \<open>tail_hash\<close> as the block leaves it.
\<close>

definition sync_bootstrap ::
  "world \<Rightarrow> session \<Rightarrow> string option \<Rightarrow> string option \<Rightarrow> string option prog" where
  "sync_bootstrap w s local_tail_hash remote_tail_hash =
     (if \<not> truthy local_tail_hash \<or> local_tail_hash \<noteq> remote_tail_hash
      then
        pthen (status_out (''(@dim)Local gut repo base commit: ['' @ color_commit w local_tail_hash @ ''(@dim)]'' @ nl))
       (pthen (status_out (''(@dim)Remote gut repo base commit: ['' @ color_commit w remote_tail_hash @ ''(@dim)]'' @ nl))
          (if truthy local_tail_hash \<and> \<not> truthy remote_tail_hash
           then
             pthen (assert_folder_empty w s Remote (remote_path s))
            (pthen (status_out (''(@dim)Initializing remote repo from local repo...'' @ nl))
            (pthen (cross_init w s local_tail_hash Local (local_path s) Remote (remote_path s))
                   (returns local_tail_hash)))
           else if truthy remote_tail_hash \<and> \<not> truthy local_tail_hash
           then
             pthen (assert_folder_empty w s Local (local_path s))
            (pthen (status_out (''(@dim)Initializing local folder from remote gut repo...'' @ nl))
            (pthen (cross_init w s remote_tail_hash Remote (remote_path s) Local (local_path s))
                   (returns remote_tail_hash)))
           else if \<not> truthy local_tail_hash \<and> \<not> truthy remote_tail_hash
           then
             pthen (assert_folder_empty w s Remote (remote_path s))
            (pthen (assert_folder_empty w s Local (local_path s))
            (pthen (status_out (''(@dim)Initializing both local and remote gut repos...'' @ nl))
            (pthen (status_out (''(@dim)Initializing local repo first...'' @ nl))
            (pthen (run w (Init Local (local_path s)))
            (pthen (run w (Ensure_initial_commit Local (local_path s)))
            (pbind (get_tail_hash w Local (local_path s)) (\<lambda>tail_hash.
             pthen (status_out (''(@dim)Initializing remote repo from local repo...'' @ nl))
            (pthen (cross_init w s tail_hash Local (local_path s) Remote (remote_path s))
                   (returns tail_hash)))))))))
           else
             pthen (status_out (''(@error)Cannot sync incompatible gut repos:'' @ nl))
            (pthen (status_out (''(@error)Local initial commit hash: ['' @ color_commit w local_tail_hash @ ''(@error)]'' @ nl))
            (pthen (status_out (''(@error)Remote initial commit hash: ['' @ color_commit w remote_tail_hash @ ''(@error)]'' @ nl))
            (pthen shutdown
                   (returns None))))))
      else
        pthen (run w (Daemon Local (local_path s) local_tail_hash (gutd_bind_port s)))
       (pthen (run w (Daemon Remote (remote_path s) local_tail_hash (gutd_bind_port s)))
              (returns local_tail_hash)))"

section \<open>\<open>commit_and_update\<close>\<close>

text \<open>
  \<open>try: body except e: handler\<close>: the handler runs when the body raises \<open>e\<close>; any
  other exception passes through.
\<close>

definition try_except :: "'a prog \<Rightarrow> exn \<Rightarrow> 'a prog \<Rightarrow> 'a prog" where
  "try_except body e handler tr =
     (case body tr of
        (Inl e', tr') \<Rightarrow> if e' = e then handler tr' else (Inl e', tr')
      | (Inr x, tr') \<Rightarrow> (Inr x, tr'))"

text \<open>
  Lines 276 to 308. The system name chooses source and destination; the staging prefix
  is computed from the changed paths; then
  \<^verbatim>\<open>
    try:
        if (yield from gut_cmd.commit(src_context, src_path, prefix, update_untracked=update_untracked)):
            yield from gut_cmd.pull(dest_context, dest_path)
    except plumbum.commands.ProcessExecutionError:
        status.out('\n\n(@error)Error during commit-and-pull:\n')
        traceback.print_exc(file=sys.stderr)
  \<close>
  The text of the diagnostic is \<open>error_msg\<close>.
\<close>

definition error_msg :: string where
  "error_msg = nl @ nl @ ''(@error)Error during commit-and-pull:'' @ nl"

definition commit_and_update ::
  "world \<Rightarrow> session \<Rightarrow> string \<Rightarrow> string set option \<Rightarrow> bool \<Rightarrow> unit prog" where
  "commit_and_update w s src_system changed_paths update_untracked =
     (let (src_context, src_path, dest_context, dest_path) =
            (if src_system = ''local''
             then (Local, local_path s, Remote, remote_path s)
             else (Remote, remote_path s, Local, local_path s))
      in case staging_prefix (is_windows s src_context) changed_paths of
           Inl e \<Rightarrow> raise e
         | Inr prefix' \<Rightarrow>
             try_except
               (pbind (call w (Commit src_context src_path prefix' update_untracked))
                  (\<lambda>committed.
                     if committed then run w (Pull dest_context dest_path) else returns ()))
               ProcessExecutionError
               (pthen (status_out error_msg)
                      (emit Print_exc)))"

section \<open>The sync loop\<close>

text \<open>
  What the loop takes from the event queue: the string \<open>SHUTDOWN_STR\<close> that the shutdown
  hook puts there, or a pair of system name and path from a watcher.
\<close>

datatype event = SHUTDOWN_STR | Change string string

text \<open>
  One turn of \<open>event_queue.get()\<close> as the loop sees it: an event, or a debounce window of
  0.1 passing with none. While \<open>changed\<close> is empty the loop waits without a timeout, so
  there such a window only passes.
\<close>

datatype arrival = Got event | TimeoutError

text \<open>
  The variables of the loop: the dict \<open>changed\<close> from system name to set of paths
  and the set \<open>changed_ignore\<close>. The dict is a list of items without repeated keys;
  the model keeps the items in the order of insertion, and nothing proved below depends
  on the order in which \<open>changed.items()\<close> gives them.
\<close>

record pending =
  changed :: "(string \<times> string set) list"
  changed_ignore :: "string set"

text \<open>
  How the loop ends: by \<open>break\<close>, by an exception, or not within the arrivals given
  (it still waits on the queue).
\<close>

datatype outcome = Returned | Raised exn | Waiting

text \<open>
  Lines 336 and 337:
  \<^verbatim>\<open>
    for system, paths in changed.items():
        yield from commit_and_update(system, paths, update_untracked=(system in changed_ignore))
  \<close>
\<close>

fun flush :: "world \<Rightarrow> session \<Rightarrow> string set \<Rightarrow> (string \<times> string set) list \<Rightarrow> unit prog" where
  "flush w s ignore [] = returns ()"
| "flush w s ignore ((system, paths) # items) =
     pthen (commit_and_update w s system (Some paths) (system \<in> ignore))
           (flush w s ignore items)"

text \<open>
  Lines 343 to 356, for an event that is not the sentinel:
  \<^verbatim>\<open>
    system, path = event
    path_parts = path.split(os.sep)
    if not '.gut' in path_parts:
        if system not in changed:
            changed[system] = set()
        changed[system].add(path)
        if path_parts[-1] == '.gutignore':
            changed_ignore.add(system)
            status.out('changed_ignore %s on %s\n' % (path, system))
        else:
            status.out('changed %s %s\n' % (system, path))
    else:
        status.out('ignoring changed %s %s\n' % (system, path))
  \<close>
\<close>

definition on_change :: "session \<Rightarrow> string \<Rightarrow> string \<Rightarrow> pending \<Rightarrow> pending prog" where
  "on_change s system path st =
     (let path_parts = split (os_sep s) path
      in if ''.gut'' \<notin> set path_parts
         then
           (let changed1 = (if system \<notin> fst ` set (changed st)
                            then AList.update system {} (changed st) else changed st);
                changed2 = AList.map_entry system (insert path) changed1
            in if last path_parts = ''.gutignore''
               then pthen (status_out (''changed_ignore '' @ path @ '' on '' @ system @ nl))
                          (returns (st\<lparr>changed := changed2,
                                       changed_ignore := insert system (changed_ignore st)\<rparr>))
               else pthen (status_out (''changed '' @ system @ '' '' @ path @ nl))
                          (returns (st\<lparr>changed := changed2\<rparr>)))
         else pthen (status_out (''ignoring changed '' @ system @ '' '' @ path @ nl))
                    (returns st))"

text \<open>
  Lines 329 to 356: the loop over the arrivals.
  \<^verbatim>\<open>
    while True:
        try:
            fut = event_queue.get()
            event = yield from (asyncio.wait_for(fut, 0.1) if changed else fut)
        except asyncio.TimeoutError:
            for system, paths in changed.items(): ...
            changed.clear()
            changed_ignore.clear()
        else:
            if event == SHUTDOWN_STR:
                break
            ...
  \<close>
\<close>

fun sync_loop ::
  "world \<Rightarrow> session \<Rightarrow> arrival list \<Rightarrow> pending \<Rightarrow> action list
     \<Rightarrow> outcome \<times> pending \<times> action list" where
  "sync_loop w s [] st tr = (Waiting, st, tr)"
| "sync_loop w s (TimeoutError # arrivals) st tr =
     (if changed st = [] then sync_loop w s arrivals st tr
      else (case flush w s (changed_ignore st) (changed st) tr of
              (Inl e, tr') \<Rightarrow> (Raised e, st, tr')
            | (Inr _, tr') \<Rightarrow>
                sync_loop w s arrivals (st\<lparr>changed := [], changed_ignore := {}\<rparr>) tr'))"
| "sync_loop w s (Got SHUTDOWN_STR # arrivals) st tr = (Returned, st, tr)"
| "sync_loop w s (Got (Change system path) # arrivals) st tr =
     (case on_change s system path st tr of
        (Inl e, tr') \<Rightarrow> (Raised e, st, tr')
      | (Inr st', tr') \<Rightarrow> sync_loop w s arrivals st' tr')"

text \<open>
  Lines 319 to 327, before the loop: the two watchers are attached, both sides are
  flushed with \<open>update_untracked=True\<close> and no paths, and both sides pull.
\<close>

definition sync_before_loop :: "world \<Rightarrow> session \<Rightarrow> unit prog" where
  "sync_before_loop w s =
     pthen (run w (Watch_for_changes Local (local_path s) ''local''))
    (pthen (run w (Watch_for_changes Remote (remote_path s) ''remote''))
    (pthen (commit_and_update w s ''remote'' None True)
    (pthen (commit_and_update w s ''local'' None True)
    (pthen (run w (Pull Remote (remote_path s)))
           (run w (Pull Local (local_path s)))))))"

text \<open>Lines 319 to 356: the loop starts, with nothing pending, once the lines before it return.\<close>

definition sync_watch :: "world \<Rightarrow> session \<Rightarrow> arrival list \<Rightarrow> action list
     \<Rightarrow> outcome \<times> pending \<times> action list" where
  "sync_watch w s arrivals tr =
     (case sync_before_loop w s tr of
        (Inl e, tr') \<Rightarrow> (Raised e, \<lparr>changed = [], changed_ignore = {}\<rparr>, tr')
      | (Inr _, tr') \<Rightarrow> sync_loop w s arrivals \<lparr>changed = [], changed_ignore = {}\<rparr> tr')"

section \<open>The specification's notions\<close>

text \<open>
  The decision table of the specification, in its words: a tail hash is present or
  absent; two present and equal hashes are compatible, two present and differing hashes
  incompatible, one present hash is adopted by the other side, and with none both sides
  are initialized. A hash is present when it is neither \<open>None\<close> nor empty
  (\<open>get_tail_hash\<close> never gives the empty string).
\<close>

datatype relation = Compatible | Adopt_remote_from_local | Adopt_local_from_remote
  | Initialize_both | Incompatible

definition present :: "string option \<Rightarrow> bool" where
  "present h \<longleftrightarrow> h \<noteq> None \<and> h \<noteq> Some []"

definition decision_table :: "string option \<Rightarrow> string option \<Rightarrow> relation" where
  "decision_table local_tail remote_tail =
     (if present local_tail \<and> present remote_tail
      then (if local_tail = remote_tail then Compatible else Incompatible)
      else if present local_tail then Adopt_remote_from_local
      else if present remote_tail then Adopt_local_from_remote
      else Initialize_both)"

text \<open>
  The steps of ``adopt dest from src'' in the order of the specification: daemon on the
  source at the bind port with the tail hash, a fresh repository at the destination, its
  upstream set through the connect port, a pause, the pull into the destination, and a
  daemon on the destination.
\<close>

definition adopt_steps ::
  "session \<Rightarrow> string option \<Rightarrow> node \<Rightarrow> string \<Rightarrow> node \<Rightarrow> string \<Rightarrow> action list" where
  "adopt_steps s tail_hash src_context src_path dest_context dest_path =
     [Daemon src_context src_path tail_hash (gutd_bind_port s),
      Init dest_context dest_path,
      Setup_origin dest_context dest_path tail_hash (gutd_connect_port s),
      Sleep 2,
      Pull dest_context dest_path,
      Daemon dest_context dest_path tail_hash (gutd_bind_port s)]"

text \<open>
  What the specification asks of the bootstrap: a repository is initialized at a
  destination only after the guard has looked at that destination and found nothing in
  the way. Of the actions \<open>ext\<close> done after \<open>tr\<close>, every \<open>Init\<close> has before it a
  moment at which the guard's condition for its destination was false.
\<close>

definition guarded :: "world \<Rightarrow> action list \<Rightarrow> action list \<Rightarrow> bool" where
  "guarded w tr ext \<longleftrightarrow>
     (\<forall>n q. Init n q \<in> set ext \<longrightarrow>
        (\<exists>xs. prefix xs ext \<and> Init n q \<notin> set xs \<and> \<not> refuses w (tr @ xs) n q))"

text \<open>
  Directories, in the specification's words and without \<open>split\<close>. A path is under a
  directory \<open>d\<close> when it is \<open>d\<close> or continues \<open>d\<close> with a separator. The backend's
  private metadata directory is \<open>.gut\<close> at the top of the synced directory
  (\<open>get_tail_hash\<close> looks for it there), so a path given from the synced directory is
  under it when it is under \<open>.gut\<close>. A directory is named \<open>name\<close> when that is all of it
  or what follows its last separator; a path is in a directory of that name, at any
  depth, when one of its initial parts is so named and the path is under that part.
\<close>

definition under_dir :: "char \<Rightarrow> string \<Rightarrow> string \<Rightarrow> bool" where
  "under_dir sep d path \<longleftrightarrow> path = d \<or> prefix (d @ [sep]) path"

definition under_metadata_dir :: "char \<Rightarrow> string \<Rightarrow> bool" where
  "under_metadata_dir sep path \<longleftrightarrow> under_dir sep ''.gut'' path"

definition dir_named :: "char \<Rightarrow> string \<Rightarrow> string \<Rightarrow> bool" where
  "dir_named sep name d \<longleftrightarrow> d = name \<or> suffix (sep # name) d"

definition in_dir_named :: "char \<Rightarrow> string \<Rightarrow> string \<Rightarrow> bool" where
  "in_dir_named sep name path \<longleftrightarrow>
     (\<exists>d\<in>set (prefixes path). dir_named sep name d \<and> under_dir sep d path)"


text \<open>The commits and the pulls among the actions.\<close>

fun is_commit :: "action \<Rightarrow> bool" where
  "is_commit (Commit context p prefix' update_untracked) = True"
| "is_commit a = False"

fun is_pull :: "action \<Rightarrow> bool" where
  "is_pull (Pull context p) = True"
| "is_pull a = False"

fun is_status_out :: "action \<Rightarrow> bool" where
  "is_status_out (Status_out msg) = True"
| "is_status_out a = False"

section \<open>Sessions and worlds to run them in\<close>

definition example_session :: session where
  "example_session =
     \<lparr>local_path = ''work'', remote_path = ''/srv/work'',
      gutd_bind_port = 34001, gutd_connect_port = 34002,
      is_windows = (\<lambda>context. False),
      name_ansi = (\<lambda>context. case context of Local \<Rightarrow> ''(@host)localhost(@r)''
                                 | Remote \<Rightarrow> ''(@host)example.org(@r)''),
      os_sep = CHR ''/''\<rparr>"

text \<open>
  Every command succeeds and every commit makes a revision; only the local side has a
  repository, whose query prints the hash \<open>9f2c\<close> and a newline; the remote path does
  not exist.
\<close>

definition example_world :: world where
  "example_world =
     \<lparr>backend = (\<lambda>tr a. Inr True),
      path_exists = (\<lambda>tr context p. context = Local),
      path_isdir = (\<lambda>tr context p. context = Local),
      path_list = (\<lambda>tr context p. if context = Local then [''.gut'', ''notes.txt''] else []),
      gut_marker_exists = (\<lambda>tr context p. context = Local),
      rev_list = (\<lambda>tr context p. (0, ''9f2c'' @ nl)),
      color_commit = (\<lambda>h. case h of None \<Rightarrow> ''None'' | Some x \<Rightarrow> x),
      path_str = (\<lambda>context p. p)\<rparr>"


text \<open>The same session with a remote side on Windows, the loop running where \<open>os.sep\<close> is \<open>/\<close>.\<close>

definition windows_remote_session :: session where
  "windows_remote_session = example_session\<lparr>is_windows := (\<lambda>context. context = Remote)\<rparr>"

text \<open>The same world, except that every pull fails with a \<open>ProcessExecutionError\<close>.\<close>

definition pull_fails_world :: world where
  "pull_fails_world =
     example_world\<lparr>backend := (\<lambda>tr a. if is_pull a then Inl ProcessExecutionError else Inr True)\<rparr>"

section \<open>The staging prefix\<close>

lemma lex_between:
  "s1 \<le> p \<Longrightarrow> p \<le> s2 \<Longrightarrow> prefix c s1 \<Longrightarrow> prefix c s2 \<Longrightarrow> prefix c (p::string)"
proof (induction c arbitrary: s1 s2 p)
  case Nil
  then show ?case by simp
next
  case (Cons x c)
  from Cons.prems obtain s1' s2' where s: "s1 = x # s1'" "s2 = x # s2'" "prefix c s1'" "prefix c s2'"
    by (auto simp: prefix_def)
  with Cons.prems obtain y p' where p: "p = y # p'"
    by (cases p) auto
  with s Cons.prems have "y = x" "s1' \<le> p'" "p' \<le> s2'"
    by auto
  with Cons.IH s p show ?case by simp
qed

lemma le_take_length:
  assumes "(s1::string) \<le> s2" "take i s1 = take i s2" "i < length s1"
  shows "i < length s2"
  using assms
proof (induction i arbitrary: s1 s2)
  case 0
  then show ?case by (cases s1; cases s2) auto
next
  case (Suc i)
  then show ?case by (cases s1; cases s2) auto
qed

lemma commonprefix_loop_ok:
  "s1 \<le> s2 \<Longrightarrow> take i s1 = take i s2 \<Longrightarrow> i \<le> length s1 \<Longrightarrow>
   \<exists>c. commonprefix_loop s1 s2 i = Inr c \<and> prefix c s1 \<and> prefix c s2"
proof (induction s1 s2 i rule: commonprefix_loop.induct)
  case (1 s1 s2 i)
  show ?case
  proof (cases "i < length s1")
    case False
    with 1 show ?thesis
      by (subst commonprefix_loop.simps) (simp, metis take_all take_is_prefix order_refl)
  next
    case True
    with 1 have i2: "i < length s2" by (auto intro: le_take_length)
    show ?thesis
    proof (cases "s1 ! i = s2 ! i")
      case False
      with True i2 1 show ?thesis
        by (subst commonprefix_loop.simps) (simp, metis take_is_prefix)
    next
      case eq: True
      from True i2 eq 1 have "take (Suc i) s1 = take (Suc i) s2"
        by (simp add: take_Suc_conv_app_nth)
      with True i2 eq 1 show ?thesis
        by (subst commonprefix_loop.simps) simp
    qed
  qed
qed

lemma commonprefix_common:
  assumes "finite m" "m \<noteq> {}"
  shows "\<exists>cp. commonprefix m = Inr cp \<and> (\<forall>p\<in>m. prefix cp p)"
proof -
  from assms have le: "Min m \<le> Max m" by simp
  then obtain cp where cp: "commonprefix_loop (Min m) (Max m) 0 = Inr cp"
      "prefix cp (Min m)" "prefix cp (Max m)"
    using commonprefix_loop_ok [of "Min m" "Max m" 0] by auto
  have "prefix cp p" if "p \<in> m" for p
  proof -
    from that assms have "Min m \<le> p" "p \<le> Max m" by simp_all
    with cp show ?thesis by (blast intro: lex_between)
  qed
  with cp assms show ?thesis by (simp add: commonprefix_def)
qed

lemma rpartition_found:
  assumes "sep \<in> set s"
  shows "\<exists>rest. rpartition sep s = (fst (rpartition sep s), [sep], rest) \<and>
           s = fst (rpartition sep s) @ sep # rest \<and> sep \<notin> set rest"
proof -
  let ?P = "\<lambda>c. c \<noteq> sep"
  let ?r = "rev s"
  from assms have ne: "dropWhile ?P ?r \<noteq> []" by (simp add: dropWhile_eq_Nil_conv)
  then have hd: "hd (dropWhile ?P ?r) = sep"
    using hd_dropWhile [of ?P ?r] by simp
  have "?r = takeWhile ?P ?r @ dropWhile ?P ?r" by simp
  also from ne hd have "dropWhile ?P ?r = sep # tl (dropWhile ?P ?r)"
    by (cases "dropWhile ?P ?r") auto
  finally have "rev ?r = rev (takeWhile ?P ?r @ sep # tl (dropWhile ?P ?r))" by simp
  then have s: "s = rev (tl (dropWhile ?P ?r)) @ sep # rev (takeWhile ?P ?r)" by simp
  have "sep \<notin> set (rev (takeWhile ?P ?r))"
    by (auto dest: set_takeWhileD)
  with s assms show ?thesis by (simp add: rpartition_def)
qed

lemma rpartition_not_found: "sep \<notin> set s \<Longrightarrow> rpartition sep s = ([], [], s)"
  by (simp add: rpartition_def)

lemma commonprefix_loop_longest:
  "take i s1 = take i s2 \<Longrightarrow> i \<le> length s1 \<Longrightarrow> commonprefix_loop s1 s2 i = Inr c \<Longrightarrow>
   prefix d s1 \<Longrightarrow> prefix d s2 \<Longrightarrow> prefix d c"
proof (induction s1 s2 i rule: commonprefix_loop.induct)
  case (1 s1 s2 i)
  show ?case
  proof (cases "i < length s1")
    case False
    with "1.prems"(3) have "c = s1"
      by (subst (asm) commonprefix_loop.simps) simp
    with "1.prems" show ?thesis by simp
  next
    case True
    show ?thesis
    proof (cases "i < length s2")
      case False
      with True "1.prems"(3) show ?thesis
        by (subst (asm) commonprefix_loop.simps) simp
    next
      case i2: True
      show ?thesis
      proof (cases "s1 ! i = s2 ! i")
        case True
        with \<open>i < length s1\<close> i2 "1.prems"(1) have "take (Suc i) s1 = take (Suc i) s2"
          by (simp add: take_Suc_conv_app_nth)
        moreover from \<open>i < length s1\<close> i2 True "1.prems"(3)
        have "commonprefix_loop s1 s2 (Suc i) = Inr c"
          by (subst (asm) commonprefix_loop.simps) simp
        ultimately show ?thesis
          using "1.IH" [OF \<open>i < length s1\<close> i2] True \<open>i < length s1\<close> "1.prems"(4,5) by simp
      next
        case False
        with \<open>i < length s1\<close> i2 "1.prems"(3) have c: "c = take i s1"
          by (subst (asm) commonprefix_loop.simps) simp
        have "length d \<le> i"
        proof (rule ccontr)
          assume "\<not> length d \<le> i"
          then have "i < length d" by simp
          with "1.prems"(4,5) have "s1 ! i = d ! i" "s2 ! i = d ! i"
            by (auto simp: prefix_def nth_append)
          with False show False by simp
        qed
        with "1.prems"(4) c show ?thesis
          by (auto simp: prefix_def)
      qed
    qed
  qed
qed

lemma commonprefix_longest:
  assumes "finite m" "m \<noteq> {}"
  shows "\<exists>cp. commonprefix m = Inr cp \<and> (\<forall>p\<in>m. prefix cp p) \<and>
           (\<forall>d. (\<forall>p\<in>m. prefix d p) \<longrightarrow> prefix d cp)"
proof -
  from commonprefix_common [OF assms]
  obtain cp where cp: "commonprefix m = Inr cp" "\<forall>p\<in>m. prefix cp p" by blast
  with assms have loop: "commonprefix_loop (Min m) (Max m) 0 = Inr cp"
    by (simp add: commonprefix_def)
  have "prefix d cp" if d: "\<forall>p\<in>m. prefix d p" for d
  proof -
    from assms have "Min m \<in> m" "Max m \<in> m" by simp_all
    with d have "prefix d (Min m)" "prefix d (Max m)" by blast+
    with loop show ?thesis
      using commonprefix_loop_longest [of 0 "Min m" "Max m" cp d] by simp
  qed
  with cp show ?thesis by blast
qed

lemma staging_prefix_total:
  assumes "finite P"
  shows "\<exists>pre. staging_prefix win (Some P) = Inr pre"
proof (cases "P = {}")
  case True
  then show ?thesis by (simp add: staging_prefix_def)
next
  case False
  with assms obtain cp where "commonprefix P = Inr cp"
    using commonprefix_common by blast
  with False show ?thesis by (simp add: staging_prefix_def Let_def)
qed

text \<open>
  C2. For every finite, non-empty set \<open>P\<close> of changed paths the staging prefix is
  computed without error and is fixed by \<open>P\<close>: with \<open>cp\<close> the longest string that
  every path of \<open>P\<close> starts with, it is the part of \<open>cp\<close> before the last separator
  of the source's platform in \<open>cp\<close>, and the root \<open>.\<close> when \<open>cp\<close> has no separator or
  nothing stands before its last one. So the prefix is an ancestor-or-equal directory of
  every path of \<open>P\<close>: the root, or a string that every path continues with the
  separator. Without paths, and for the empty set, the prefix is the root.
\<close>

theorem staging_prefix_longest:
  "staging_prefix win None = Inr ''.'' \<and>
   staging_prefix win (Some {}) = Inr ''.'' \<and>
   (finite P \<and> P \<noteq> {} \<longrightarrow>
     (\<exists>cp. (\<forall>p\<in>P. prefix cp p) \<and>
           (\<forall>d. (\<forall>p\<in>P. prefix d p) \<longrightarrow> prefix d cp) \<and>
           (if separator win \<in> set cp
            then \<exists>pre rest. cp = pre @ separator win # rest \<and> separator win \<notin> set rest \<and>
                   staging_prefix win (Some P) = Inr (if pre = [] then ''.'' else pre)
            else staging_prefix win (Some P) = Inr ''.''))) \<and>
   (finite P \<longrightarrow>
     (\<exists>pre. staging_prefix win (Some P) = Inr pre \<and>
        (\<forall>p\<in>P. ancestor_or_equal (separator win) pre p) \<and>
        (pre = ''.'' \<or>
         (\<exists>rest. separator win \<notin> set rest \<and>
            (\<forall>p\<in>P. prefix (pre @ separator win # rest) p)))))"
proof (intro conjI impI)
  let ?sep = "separator win"
  show "staging_prefix win None = Inr ''.''" by (simp add: staging_prefix_def)
  show "staging_prefix win (Some {}) = Inr ''.''" by (simp add: staging_prefix_def)
  have main: "\<exists>cp. (\<forall>p\<in>P. prefix cp p) \<and>
           (\<forall>d. (\<forall>p\<in>P. prefix d p) \<longrightarrow> prefix d cp) \<and>
           (if ?sep \<in> set cp
            then \<exists>pre rest. cp = pre @ ?sep # rest \<and> ?sep \<notin> set rest \<and>
                   staging_prefix win (Some P) = Inr (if pre = [] then ''.'' else pre)
            else staging_prefix win (Some P) = Inr ''.'')"
    if fin: "finite P" and ne: "P \<noteq> {}"
  proof -
    from commonprefix_longest [OF fin ne]
    obtain cp where cp: "commonprefix P = Inr cp" "\<forall>p\<in>P. prefix cp p"
      "\<forall>d. (\<forall>p\<in>P. prefix d p) \<longrightarrow> prefix d cp"
      by blast
    let ?t = "fst (rpartition ?sep cp)"
    from ne cp(1) have sp: "staging_prefix win (Some P) = Inr (if ?t = [] then ''.'' else ?t)"
      by (simp add: staging_prefix_def Let_def)
    have "if ?sep \<in> set cp
            then \<exists>pre rest. cp = pre @ ?sep # rest \<and> ?sep \<notin> set rest \<and>
                   staging_prefix win (Some P) = Inr (if pre = [] then ''.'' else pre)
            else staging_prefix win (Some P) = Inr ''.''"
    proof (cases "?sep \<in> set cp")
      case True
      then obtain rest where "cp = ?t @ ?sep # rest" "?sep \<notin> set rest"
        using rpartition_found by blast
      with sp True show ?thesis by metis
    next
      case False
      then have "?t = []" by (simp add: rpartition_def)
      with sp False show ?thesis by simp
    qed
    with cp(2,3) show ?thesis by blast
  qed
  {
    assume "finite P \<and> P \<noteq> {}"
    then show "\<exists>cp. (\<forall>p\<in>P. prefix cp p) \<and>
           (\<forall>d. (\<forall>p\<in>P. prefix d p) \<longrightarrow> prefix d cp) \<and>
           (if ?sep \<in> set cp
            then \<exists>pre rest. cp = pre @ ?sep # rest \<and> ?sep \<notin> set rest \<and>
                   staging_prefix win (Some P) = Inr (if pre = [] then ''.'' else pre)
            else staging_prefix win (Some P) = Inr ''.'')"
      using main by blast
  }
  assume fin: "finite P"
  show "\<exists>pre. staging_prefix win (Some P) = Inr pre \<and>
        (\<forall>p\<in>P. ancestor_or_equal ?sep pre p) \<and>
        (pre = ''.'' \<or> (\<exists>rest. ?sep \<notin> set rest \<and> (\<forall>p\<in>P. prefix (pre @ ?sep # rest) p)))"
  proof (cases "P = {}")
    case True
    then show ?thesis by (simp add: staging_prefix_def ancestor_or_equal_def)
  next
    case False
    from main [OF fin False]
    obtain cp where cp: "\<forall>p\<in>P. prefix cp p"
      and res: "if ?sep \<in> set cp
            then \<exists>pre rest. cp = pre @ ?sep # rest \<and> ?sep \<notin> set rest \<and>
                   staging_prefix win (Some P) = Inr (if pre = [] then ''.'' else pre)
            else staging_prefix win (Some P) = Inr ''.''"
      by blast
    show ?thesis
    proof (cases "?sep \<in> set cp")
      case False
      with res show ?thesis by (simp add: ancestor_or_equal_def)
    next
      case True
      with res obtain pre rest where pr: "cp = pre @ ?sep # rest" "?sep \<notin> set rest"
        "staging_prefix win (Some P) = Inr (if pre = [] then ''.'' else pre)"
        by auto
      show ?thesis
      proof (cases "pre = []")
        case True
        with pr(3) show ?thesis by (simp add: ancestor_or_equal_def)
      next
        case False
        from cp pr(1) have all: "\<forall>p\<in>P. prefix (pre @ ?sep # rest) p" by metis
        have "prefix (pre @ [?sep]) (pre @ ?sep # rest)" by (simp add: prefix_def)
        with all have "\<forall>p\<in>P. ancestor_or_equal ?sep pre p"
          unfolding ancestor_or_equal_def by (blast intro: prefix_order.trans)
        moreover from False pr(3) have "staging_prefix win (Some P) = Inr pre" by simp
        ultimately show ?thesis using all pr(2) by blast
      qed
    qed
  qed
qed

theorem staging_prefix_longest_witness:
  "finite {''src/lib/deep/x.c'', ''src/lib/deep/y.c''} \<and>
   {''src/lib/deep/x.c'', ''src/lib/deep/y.c''} \<noteq> {} \<and>
   staging_prefix False (Some {''src/lib/deep/x.c'', ''src/lib/deep/y.c''}) = Inr ''src/lib/deep'' \<and>
   ancestor_or_equal CHR ''/'' ''src/lib/deep'' ''src/lib/deep/x.c'' \<and>
   ancestor_or_equal CHR ''/'' ''src/lib/deep'' ''src/lib/deep/y.c'' \<and>
   staging_prefix False (Some {''sarah'', ''sally''}) = Inr ''.''"
proof -
  let ?P = "{''src/lib/deep/x.c'', ''src/lib/deep/y.c''}"
  have v: "staging_prefix False (Some ?P) = Inr ''src/lib/deep''"
    by code_simp
  have v2: "staging_prefix False (Some {''sarah'', ''sally''}) = Inr ''.''"
    by code_simp
  have f: "finite ?P" "?P \<noteq> {}" by simp_all
  from staging_prefix_longest [of False ?P, THEN conjunct2, THEN conjunct2, THEN conjunct2] f v
  have "ancestor_or_equal CHR ''/'' ''src/lib/deep'' ''src/lib/deep/x.c'' \<and>
   ancestor_or_equal CHR ''/'' ''src/lib/deep'' ''src/lib/deep/y.c''"
    by (simp add: separator_def)
  with f v v2 show ?thesis by simp
qed

section \<open>Running the pieces of \<open>sync\<close>\<close>

lemma pthen_apply:
  "pthen m k tr = (case m tr of (Inl e, tr') \<Rightarrow> (Inl e, tr') | (Inr x, tr') \<Rightarrow> k tr')"
  by (simp add: pthen_def pbind_def)

lemma pbind_apply:
  "pbind m f tr = (case m tr of (Inl e, tr') \<Rightarrow> (Inl e, tr') | (Inr x, tr') \<Rightarrow> f x tr')"
  by (simp add: pbind_def)

lemma run_apply:
  "run w a tr = (case backend w tr a of Inl e \<Rightarrow> (Inl e, tr @ [a]) | Inr b \<Rightarrow> (Inr (), tr @ [a]))"
  by (simp add: run_def call_def pbind_def returns_def split: sum.splits)

lemma emit_apply: "emit a tr = (Inr (), tr @ [a])"
  by (simp add: emit_def)

lemma status_out_apply: "status_out msg tr = (Inr (), tr @ [Status_out msg])"
  by (simp add: status_out_def emit_def)

lemma returns_apply: "returns x tr = (Inr x, tr)"
  by (simp add: returns_def)

lemma shutdown_apply: "shutdown tr = (Inl SystemExit, tr)"
  by (simp add: shutdown_def raise_def)

lemmas prog_simps = pthen_apply pbind_apply run_apply emit_apply status_out_apply
  returns_apply shutdown_apply

lemma cross_init_trace:
  "\<exists>k\<le>6. snd (cross_init w s th sc sp dc dp tr) = tr @ take k (adopt_steps s th sc sp dc dp) \<and>
     (fst (cross_init w s th sc sp dc dp tr) = Inr () \<longrightarrow> k = 6) \<and>
     (k = 6 \<or> k = 5 \<or> k = 3 \<or> k = 2 \<or> k = 1)"
proof -
  let ?L = "adopt_steps s th sc sp dc dp"
  let ?r = "cross_init w s th sc sp dc dp tr"
  have "(snd ?r = tr @ take 1 ?L \<and> fst ?r \<noteq> Inr ()) \<or> (snd ?r = tr @ take 2 ?L \<and> fst ?r \<noteq> Inr ()) \<or>
        (snd ?r = tr @ take 3 ?L \<and> fst ?r \<noteq> Inr ()) \<or> (snd ?r = tr @ take 5 ?L \<and> fst ?r \<noteq> Inr ()) \<or>
        snd ?r = tr @ take 6 ?L"
    by (simp add: cross_init_def adopt_steps_def prog_simps split: sum.splits)
  then consider "snd ?r = tr @ take 1 ?L" "fst ?r \<noteq> Inr ()" | "snd ?r = tr @ take 2 ?L" "fst ?r \<noteq> Inr ()"
    | "snd ?r = tr @ take 3 ?L" "fst ?r \<noteq> Inr ()" | "snd ?r = tr @ take 5 ?L" "fst ?r \<noteq> Inr ()"
    | "snd ?r = tr @ take 6 ?L" by blast
  then show ?thesis
  proof cases
    case 1 then show ?thesis by (intro exI [of _ 1]) simp
  next
    case 2 then show ?thesis by (intro exI [of _ 2]) simp
  next
    case 3 then show ?thesis by (intro exI [of _ 3]) simp
  next
    case 4 then show ?thesis by (intro exI [of _ 5]) simp
  next
    case 5 then show ?thesis by (intro exI [of _ 6]) simp
  qed
qed

section \<open>The compatibility decision\<close>

lemma present_truthy: "present h \<longleftrightarrow> truthy h"
  by (cases h) (simp_all add: present_def truthy_def)

lemma bootstrap_compatible:
  assumes "present l" "present r" "l = r"
  shows "sync_bootstrap w s l r =
     pthen (run w (Daemon Local (local_path s) l (gutd_bind_port s)))
    (pthen (run w (Daemon Remote (remote_path s) l (gutd_bind_port s)))
           (returns l))"
  using assms by (simp add: sync_bootstrap_def present_truthy)

lemma bootstrap_adopt_remote:
  assumes "present l" "\<not> present r"
  shows "sync_bootstrap w s l r =
     pthen (status_out (''(@dim)Local gut repo base commit: ['' @ color_commit w l @ ''(@dim)]'' @ nl))
    (pthen (status_out (''(@dim)Remote gut repo base commit: ['' @ color_commit w r @ ''(@dim)]'' @ nl))
    (pthen (assert_folder_empty w s Remote (remote_path s))
    (pthen (status_out (''(@dim)Initializing remote repo from local repo...'' @ nl))
    (pthen (cross_init w s l Local (local_path s) Remote (remote_path s))
           (returns l)))))"
proof -
  from assms have "l \<noteq> r" by auto
  with assms show ?thesis by (simp add: sync_bootstrap_def present_truthy)
qed

lemma bootstrap_adopt_local:
  assumes "\<not> present l" "present r"
  shows "sync_bootstrap w s l r =
     pthen (status_out (''(@dim)Local gut repo base commit: ['' @ color_commit w l @ ''(@dim)]'' @ nl))
    (pthen (status_out (''(@dim)Remote gut repo base commit: ['' @ color_commit w r @ ''(@dim)]'' @ nl))
    (pthen (assert_folder_empty w s Local (local_path s))
    (pthen (status_out (''(@dim)Initializing local folder from remote gut repo...'' @ nl))
    (pthen (cross_init w s r Remote (remote_path s) Local (local_path s))
           (returns r)))))"
  using assms by (simp add: sync_bootstrap_def present_truthy)

lemma bootstrap_initialize_both:
  assumes "\<not> present l" "\<not> present r"
  shows "sync_bootstrap w s l r =
     pthen (status_out (''(@dim)Local gut repo base commit: ['' @ color_commit w l @ ''(@dim)]'' @ nl))
    (pthen (status_out (''(@dim)Remote gut repo base commit: ['' @ color_commit w r @ ''(@dim)]'' @ nl))
    (pthen (assert_folder_empty w s Remote (remote_path s))
    (pthen (assert_folder_empty w s Local (local_path s))
    (pthen (status_out (''(@dim)Initializing both local and remote gut repos...'' @ nl))
    (pthen (status_out (''(@dim)Initializing local repo first...'' @ nl))
    (pthen (run w (Init Local (local_path s)))
    (pthen (run w (Ensure_initial_commit Local (local_path s)))
    (pbind (get_tail_hash w Local (local_path s)) (\<lambda>tail_hash.
     pthen (status_out (''(@dim)Initializing remote repo from local repo...'' @ nl))
    (pthen (cross_init w s tail_hash Local (local_path s) Remote (remote_path s))
           (returns tail_hash)))))))))))"
  using assms by (simp add: sync_bootstrap_def present_truthy)

lemma bootstrap_incompatible:
  assumes "present l" "present r" "l \<noteq> r"
  shows "sync_bootstrap w s l r tr =
     (Inl SystemExit,
      tr @ [Status_out (''(@dim)Local gut repo base commit: ['' @ color_commit w l @ ''(@dim)]'' @ nl),
            Status_out (''(@dim)Remote gut repo base commit: ['' @ color_commit w r @ ''(@dim)]'' @ nl),
            Status_out (''(@error)Cannot sync incompatible gut repos:'' @ nl),
            Status_out (''(@error)Local initial commit hash: ['' @ color_commit w l @ ''(@error)]'' @ nl),
            Status_out (''(@error)Remote initial commit hash: ['' @ color_commit w r @ ''(@error)]'' @ nl)])"
  using assms by (simp add: sync_bootstrap_def present_truthy prog_simps)

text \<open>
  C1. The branch that lines 237 to 269 take is a function of the two tail hashes alone
  and is the row of the decision table: two present and equal hashes start the two
  daemons and nothing else; one present hash has the absent side adopted from the present
  one (guard, then \<open>cross_init\<close>); no hash initializes the local side first and
  then has the remote side adopted from it; two present and differing hashes abort with
  the diagnostic that shows both hashes, and no command is run.
\<close>

theorem decision_matches_table:
  "(case decision_table l r of
      Compatible \<Rightarrow>
        (sync_bootstrap w s l r =
          pthen (run w (Daemon Local (local_path s) l (gutd_bind_port s)))
         (pthen (run w (Daemon Remote (remote_path s) l (gutd_bind_port s)))
                (returns l)))
    | Adopt_remote_from_local \<Rightarrow>
        (sync_bootstrap w s l r =
          pthen (status_out (''(@dim)Local gut repo base commit: ['' @ color_commit w l @ ''(@dim)]'' @ nl))
         (pthen (status_out (''(@dim)Remote gut repo base commit: ['' @ color_commit w r @ ''(@dim)]'' @ nl))
         (pthen (assert_folder_empty w s Remote (remote_path s))
         (pthen (status_out (''(@dim)Initializing remote repo from local repo...'' @ nl))
         (pthen (cross_init w s l Local (local_path s) Remote (remote_path s))
                (returns l))))))
    | Adopt_local_from_remote \<Rightarrow>
        (sync_bootstrap w s l r =
          pthen (status_out (''(@dim)Local gut repo base commit: ['' @ color_commit w l @ ''(@dim)]'' @ nl))
         (pthen (status_out (''(@dim)Remote gut repo base commit: ['' @ color_commit w r @ ''(@dim)]'' @ nl))
         (pthen (assert_folder_empty w s Local (local_path s))
         (pthen (status_out (''(@dim)Initializing local folder from remote gut repo...'' @ nl))
         (pthen (cross_init w s r Remote (remote_path s) Local (local_path s))
                (returns r))))))
    | Initialize_both \<Rightarrow>
        (sync_bootstrap w s l r =
          pthen (status_out (''(@dim)Local gut repo base commit: ['' @ color_commit w l @ ''(@dim)]'' @ nl))
         (pthen (status_out (''(@dim)Remote gut repo base commit: ['' @ color_commit w r @ ''(@dim)]'' @ nl))
         (pthen (assert_folder_empty w s Remote (remote_path s))
         (pthen (assert_folder_empty w s Local (local_path s))
         (pthen (status_out (''(@dim)Initializing both local and remote gut repos...'' @ nl))
         (pthen (status_out (''(@dim)Initializing local repo first...'' @ nl))
         (pthen (run w (Init Local (local_path s)))
         (pthen (run w (Ensure_initial_commit Local (local_path s)))
         (pbind (get_tail_hash w Local (local_path s)) (\<lambda>tail_hash.
          pthen (status_out (''(@dim)Initializing remote repo from local repo...'' @ nl))
         (pthen (cross_init w s tail_hash Local (local_path s) Remote (remote_path s))
                (returns tail_hash))))))))))))
    | Incompatible \<Rightarrow>
        (\<forall>tr. sync_bootstrap w s l r tr =
           (Inl SystemExit,
            tr @ [Status_out (''(@dim)Local gut repo base commit: ['' @ color_commit w l @ ''(@dim)]'' @ nl),
                  Status_out (''(@dim)Remote gut repo base commit: ['' @ color_commit w r @ ''(@dim)]'' @ nl),
                  Status_out (''(@error)Cannot sync incompatible gut repos:'' @ nl),
                  Status_out (''(@error)Local initial commit hash: ['' @ color_commit w l @ ''(@error)]'' @ nl),
                  Status_out (''(@error)Remote initial commit hash: ['' @ color_commit w r @ ''(@error)]'' @ nl)])))"
proof (cases "decision_table l r")
  case Compatible
  then have "present l" "present r" "l = r"
    by (auto simp: decision_table_def split: if_splits)
  with Compatible show ?thesis by (simp add: bootstrap_compatible)
next
  case Adopt_remote_from_local
  then have "present l" "\<not> present r"
    by (auto simp: decision_table_def split: if_splits)
  with Adopt_remote_from_local show ?thesis by (simp add: bootstrap_adopt_remote)
next
  case Adopt_local_from_remote
  then have "\<not> present l" "present r"
    by (auto simp: decision_table_def split: if_splits)
  with Adopt_local_from_remote show ?thesis by (simp add: bootstrap_adopt_local)
next
  case Initialize_both
  then have "\<not> present l" "\<not> present r"
    by (auto simp: decision_table_def split: if_splits)
  with Initialize_both show ?thesis by (simp add: bootstrap_initialize_both)
next
  case Incompatible
  then have "present l" "present r" "l \<noteq> r"
    by (auto simp: decision_table_def split: if_splits)
  with Incompatible show ?thesis by (simp add: bootstrap_incompatible)
qed

theorem decision_matches_table_witness:
  "decision_table (Some ''9f2c'') (Some ''77aa'') = Incompatible \<and>
   sync_bootstrap example_world example_session (Some ''9f2c'') (Some ''77aa'') [] =
     (Inl SystemExit,
      [Status_out (''(@dim)Local gut repo base commit: [9f2c(@dim)]'' @ nl),
       Status_out (''(@dim)Remote gut repo base commit: [77aa(@dim)]'' @ nl),
       Status_out (''(@error)Cannot sync incompatible gut repos:'' @ nl),
       Status_out (''(@error)Local initial commit hash: [9f2c(@error)]'' @ nl),
       Status_out (''(@error)Remote initial commit hash: [77aa(@error)]'' @ nl)]) \<and>
   decision_table (Some ''9f2c'') (Some ''9f2c'') = Compatible \<and>
   sync_bootstrap example_world example_session (Some ''9f2c'') (Some ''9f2c'') [] =
     (Inr (Some ''9f2c''),
      [Daemon Local ''work'' (Some ''9f2c'') 34001, Daemon Remote ''/srv/work'' (Some ''9f2c'') 34001])"
proof -
  have d1: "decision_table (Some ''9f2c'') (Some ''77aa'') = Incompatible"
    and d2: "decision_table (Some ''9f2c'') (Some ''9f2c'') = Compatible"
    by (simp_all add: decision_table_def present_def)
  from decision_matches_table [where l = "Some ''9f2c''" and r = "Some ''77aa''"
      and w = example_world and s = example_session] d1
  have r1: "sync_bootstrap example_world example_session (Some ''9f2c'') (Some ''77aa'') [] =
     (Inl SystemExit,
      [Status_out (''(@dim)Local gut repo base commit: [9f2c(@dim)]'' @ nl),
       Status_out (''(@dim)Remote gut repo base commit: [77aa(@dim)]'' @ nl),
       Status_out (''(@error)Cannot sync incompatible gut repos:'' @ nl),
       Status_out (''(@error)Local initial commit hash: [9f2c(@error)]'' @ nl),
       Status_out (''(@error)Remote initial commit hash: [77aa(@error)]'' @ nl)])"
    by (simp add: example_world_def)
  from decision_matches_table [where l = "Some ''9f2c''" and r = "Some ''9f2c''"
      and w = example_world and s = example_session] d2
  have r2: "sync_bootstrap example_world example_session (Some ''9f2c'') (Some ''9f2c'') [] =
     (Inr (Some ''9f2c''),
      [Daemon Local ''work'' (Some ''9f2c'') 34001, Daemon Remote ''/srv/work'' (Some ''9f2c'') 34001])"
    by (simp add: example_world_def example_session_def prog_simps)
  from d1 d2 r1 r2 show ?thesis by simp
qed

section \<open>\<open>cross_init\<close>\<close>

text \<open>
  C5. \<open>cross_init\<close> runs the steps of ``adopt dest from src'' in their order and
  nothing else: what it does is always an initial part of the six steps (it stops at the
  first command that raises), it is all six when it returns, and it returns when no
  command raises.
\<close>

theorem cross_init_order:
  "(\<exists>k\<le>6. snd (cross_init w s tail_hash src src_path dest dest_path tr) =
            tr @ take k (adopt_steps s tail_hash src src_path dest dest_path)) \<and>
   (fst (cross_init w s tail_hash src src_path dest dest_path tr) = Inr () \<longrightarrow>
      snd (cross_init w s tail_hash src src_path dest dest_path tr) =
        tr @ [Daemon src src_path tail_hash (gutd_bind_port s),
              Init dest dest_path,
              Setup_origin dest dest_path tail_hash (gutd_connect_port s),
              Sleep 2,
              Pull dest dest_path,
              Daemon dest dest_path tail_hash (gutd_bind_port s)]) \<and>
   ((\<forall>tr' a e. backend w tr' a \<noteq> Inl e) \<longrightarrow>
      fst (cross_init w s tail_hash src src_path dest dest_path tr) = Inr ())"
proof (intro conjI impI)
  let ?r = "cross_init w s tail_hash src src_path dest dest_path tr"
  let ?L = "adopt_steps s tail_hash src src_path dest dest_path"
  from cross_init_trace [of w s tail_hash src src_path dest dest_path tr]
  obtain k where k: "k \<le> 6" "snd ?r = tr @ take k ?L" "fst ?r = Inr () \<longrightarrow> k = 6"
    by blast
  from k show "\<exists>k\<le>6. snd ?r = tr @ take k ?L" by blast
  {
    assume "fst ?r = Inr ()"
    with k have "snd ?r = tr @ take 6 ?L" by simp
    then show "snd ?r = tr @ [Daemon src src_path tail_hash (gutd_bind_port s),
              Init dest dest_path,
              Setup_origin dest dest_path tail_hash (gutd_connect_port s),
              Sleep 2,
              Pull dest dest_path,
              Daemon dest dest_path tail_hash (gutd_bind_port s)]"
      by (simp add: adopt_steps_def)
  }
  {
    assume ok: "\<forall>tr' a e. backend w tr' a \<noteq> Inl e"
    have run: "run w a tr' = (Inr (), tr' @ [a])" for a tr'
      using ok by (cases "backend w tr' a") (simp_all add: run_apply)
    show "fst ?r = Inr ()"
      by (simp add: cross_init_def pthen_apply emit_apply run)
  }
qed

theorem cross_init_order_witness:
  "(\<forall>tr' a e. backend example_world tr' a \<noteq> Inl e) \<and>
   cross_init example_world example_session (Some ''9f2c'') Local ''work'' Remote ''/srv/work'' [] =
     (Inr (), [Daemon Local ''work'' (Some ''9f2c'') 34001,
               Init Remote ''/srv/work'',
               Setup_origin Remote ''/srv/work'' (Some ''9f2c'') 34002,
               Sleep 2,
               Pull Remote ''/srv/work'',
               Daemon Remote ''/srv/work'' (Some ''9f2c'') 34001])"
proof -
  have ok: "\<forall>tr' a e. backend example_world tr' a \<noteq> Inl e"
    by (simp add: example_world_def)
  let ?r = "cross_init example_world example_session (Some ''9f2c'') Local ''work'' Remote ''/srv/work'' []"
  from cross_init_order [of example_world example_session "Some ''9f2c''" Local "''work''" Remote "''/srv/work''" "[]"] ok
  have "fst ?r = Inr ()" and "fst ?r = Inr () \<longrightarrow> snd ?r =
     [Daemon Local ''work'' (Some ''9f2c'') 34001,
               Init Remote ''/srv/work'',
               Setup_origin Remote ''/srv/work'' (Some ''9f2c'') 34002,
               Sleep 2,
               Pull Remote ''/srv/work'',
               Daemon Remote ''/srv/work'' (Some ''9f2c'') 34001]"
    by (simp_all add: example_session_def)
  with ok show ?thesis by (simp add: prod_eq_iff)
qed

section \<open>\<open>get_tail_hash\<close>\<close>






section \<open>The guard of the destinations\<close>

lemma snd_pthen_returns: "snd (pthen m (returns x) tr) = snd (m tr)"
  by (simp add: prog_simps split: prod.splits sum.splits)

lemma init_in_adopt_steps:
  "Init n q \<in> set (take k (adopt_steps s th sc sp dc dp)) \<Longrightarrow> n = dc \<and> q = dp"
  by (auto dest: in_set_takeD simp: adopt_steps_def)

lemma assert_folder_empty_apply:
  "assert_folder_empty w s context p tr =
     (if refuses w tr context p
      then (Inl SystemExit,
            tr @ [Status_out (''(@error)Refusing to initialize (@path)'' @ path_str w context p
                     @ '' (@error) on '' @ name_ansi s context),
                  Status_out (''(@error)as it is not an empty directory. Move or delete it manually first.'' @ nl)])
      else (Inr (), tr))"
  by (simp add: assert_folder_empty_def prog_simps)

lemma guardedI:
  assumes "\<And>n q. Init n q \<in> set ext \<Longrightarrow>
     prefix pre ext \<and> Init n q \<notin> set pre \<and> \<not> refuses w (tr @ pre) n q"
  shows "guarded w tr ext"
  unfolding guarded_def using assms by blast

lemma adopt_guarded:
  fixes O1 O2 O3 :: action
  assumes notinit: "\<And>n q. Init n q \<notin> set [O1, O2, O3]"
  shows "\<exists>ext. snd (pthen (emit O1) (pthen (emit O2) (pthen (assert_folder_empty w s dc dp)
            (pthen (emit O3) (pthen (cross_init w s th sc sp dc dp) (returns x))))) tr) = tr @ ext \<and>
           guarded w tr ext"
proof (cases "refuses w (tr @ [O1, O2]) dc dp")
  case True
  then show ?thesis using notinit
    by (simp add: pthen_apply emit_apply assert_folder_empty_apply guarded_def)
next
  case False
  let ?tr = "tr @ [O1, O2, O3]"
  from cross_init_trace [of w s th sc sp dc dp ?tr]
  obtain k where k: "snd (cross_init w s th sc sp dc dp ?tr) = ?tr @ take k (adopt_steps s th sc sp dc dp)"
    by blast
  let ?ext = "[O1, O2, O3] @ take k (adopt_steps s th sc sp dc dp)"
  have "snd (pthen (emit O1) (pthen (emit O2) (pthen (assert_folder_empty w s dc dp)
            (pthen (emit O3) (pthen (cross_init w s th sc sp dc dp) (returns x))))) tr) = tr @ ?ext"
    using False k
    by (simp add: pthen_apply [of "emit O1"] pthen_apply [of "emit O2"] pthen_apply [of "emit O3"]
        pthen_apply [of "assert_folder_empty w s dc dp"] emit_apply assert_folder_empty_apply
        snd_pthen_returns)
  moreover have "guarded w tr ?ext"
  proof (rule guardedI [where pre = "[O1, O2]"])
    fix n q
    assume "Init n q \<in> set ?ext"
    with notinit have "Init n q \<in> set (take k (adopt_steps s th sc sp dc dp))" by auto
    then have "n = dc" "q = dp" by (auto dest: init_in_adopt_steps)
    with False notinit [of n q]
    show "prefix [O1, O2] ?ext \<and> Init n q \<notin> set [O1, O2] \<and> \<not> refuses w (tr @ [O1, O2]) n q"
      by simp
  qed
  ultimately show ?thesis by blast
qed

lemma get_tail_hash_apply: "\<exists>h. get_tail_hash w context p tr = (Inr h, tr)"
  by (simp add: get_tail_hash_def Let_def)

lemma snd_case_returns:
  "snd (case r of (Inl e, tr') \<Rightarrow> (Inl e, tr') | (Inr x, tr') \<Rightarrow> (Inr y, tr')) = snd r"
  by (simp split: prod.splits sum.splits)

lemma initialize_both_guarded:
  fixes O1 O2 O3 O4 O5 :: action
  assumes notinit: "\<And>n q. Init n q \<notin> set [O1, O2, O3, O4, O5]"
  shows "\<exists>ext. snd (pthen (emit O1) (pthen (emit O2)
           (pthen (assert_folder_empty w s Remote rp)
           (pthen (assert_folder_empty w s Local lp)
           (pthen (emit O3) (pthen (emit O4)
           (pthen (run w (Init Local lp))
           (pthen (run w (Ensure_initial_commit Local lp))
           (pbind (get_tail_hash w Local lp) (\<lambda>tail_hash.
            pthen (emit O5)
           (pthen (cross_init w s tail_hash Local lp Remote rp)
                  (returns tail_hash))))))))))) tr) = tr @ ext \<and>
           guarded w tr ext"
    (is "\<exists>ext. snd (?P tr) = tr @ ext \<and> _")
proof -
  let ?tr1 = "tr @ [O1, O2]"
  let ?tr2 = "tr @ [O1, O2, O3, O4]"
  let ?tr3 = "tr @ [O1, O2, O3, O4, Init Local lp]"
  let ?tr4 = "tr @ [O1, O2, O3, O4, Init Local lp, Ensure_initial_commit Local lp]"
  consider (remote) "refuses w ?tr1 Remote rp"
    | (local) "\<not> refuses w ?tr1 Remote rp" "refuses w ?tr1 Local lp"
    | (init) e where "\<not> refuses w ?tr1 Remote rp" "\<not> refuses w ?tr1 Local lp"
        "backend w ?tr2 (Init Local lp) = Inl e"
    | (ensure) b e where "\<not> refuses w ?tr1 Remote rp" "\<not> refuses w ?tr1 Local lp"
        "backend w ?tr2 (Init Local lp) = Inr b"
        "backend w ?tr3 (Ensure_initial_commit Local lp) = Inl e"
    | (cross) b b' where "\<not> refuses w ?tr1 Remote rp" "\<not> refuses w ?tr1 Local lp"
        "backend w ?tr2 (Init Local lp) = Inr b"
        "backend w ?tr3 (Ensure_initial_commit Local lp) = Inr b'"
    by (metis sum.exhaust)
  then show ?thesis
  proof cases
    case remote
    then have "snd (?P tr) = tr @ [O1, O2,
        Status_out (''(@error)Refusing to initialize (@path)'' @ path_str w Remote rp
                     @ '' (@error) on '' @ name_ansi s Remote),
        Status_out (''(@error)as it is not an empty directory. Move or delete it manually first.'' @ nl)]"
      by (simp add: pthen_apply emit_apply assert_folder_empty_apply)
    moreover have "guarded w tr [O1, O2,
        Status_out (''(@error)Refusing to initialize (@path)'' @ path_str w Remote rp
                     @ '' (@error) on '' @ name_ansi s Remote),
        Status_out (''(@error)as it is not an empty directory. Move or delete it manually first.'' @ nl)]"
      using notinit by (simp add: guarded_def)
    ultimately show ?thesis by blast
  next
    case local
    then have "snd (?P tr) = tr @ [O1, O2,
        Status_out (''(@error)Refusing to initialize (@path)'' @ path_str w Local lp
                     @ '' (@error) on '' @ name_ansi s Local),
        Status_out (''(@error)as it is not an empty directory. Move or delete it manually first.'' @ nl)]"
      by (simp add: pthen_apply emit_apply assert_folder_empty_apply)
    moreover have "guarded w tr [O1, O2,
        Status_out (''(@error)Refusing to initialize (@path)'' @ path_str w Local lp
                     @ '' (@error) on '' @ name_ansi s Local),
        Status_out (''(@error)as it is not an empty directory. Move or delete it manually first.'' @ nl)]"
      using notinit by (simp add: guarded_def)
    ultimately show ?thesis by blast
  next
    case init
    then have "snd (?P tr) = tr @ [O1, O2, O3, O4, Init Local lp]"
      by (simp add: pthen_apply emit_apply assert_folder_empty_apply run_apply)
    moreover have "guarded w tr [O1, O2, O3, O4, Init Local lp]"
    proof (rule guardedI [where pre = "[O1, O2]"])
      fix n q
      assume "Init n q \<in> set [O1, O2, O3, O4, Init Local lp]"
      with notinit [of n q] have "n = Local" "q = lp" by auto
      with init notinit [of n q]
      show "prefix [O1, O2] [O1, O2, O3, O4, Init Local lp] \<and> Init n q \<notin> set [O1, O2] \<and>
            \<not> refuses w (tr @ [O1, O2]) n q"
        by simp
    qed
    ultimately show ?thesis by blast
  next
    case ensure
    then have "snd (?P tr) = tr @ [O1, O2, O3, O4, Init Local lp, Ensure_initial_commit Local lp]"
      by (simp add: pthen_apply emit_apply assert_folder_empty_apply run_apply)
    moreover have "guarded w tr [O1, O2, O3, O4, Init Local lp, Ensure_initial_commit Local lp]"
    proof (rule guardedI [where pre = "[O1, O2]"])
      fix n q
      assume "Init n q \<in> set [O1, O2, O3, O4, Init Local lp, Ensure_initial_commit Local lp]"
      with notinit [of n q] have "n = Local" "q = lp" by auto
      with ensure notinit [of n q]
      show "prefix [O1, O2] [O1, O2, O3, O4, Init Local lp, Ensure_initial_commit Local lp] \<and>
            Init n q \<notin> set [O1, O2] \<and> \<not> refuses w (tr @ [O1, O2]) n q"
        by simp
    qed
    ultimately show ?thesis by blast
  next
    case cross
    obtain th where th: "get_tail_hash w Local lp ?tr4 = (Inr th, ?tr4)"
      using get_tail_hash_apply by blast
    let ?tr5 = "tr @ [O1, O2, O3, O4, Init Local lp, Ensure_initial_commit Local lp, O5]"
    from cross_init_trace [of w s th Local lp Remote rp ?tr5]
    obtain k where k: "snd (cross_init w s th Local lp Remote rp ?tr5) =
        ?tr5 @ take k (adopt_steps s th Local lp Remote rp)"
      by blast
    let ?ext = "[O1, O2, O3, O4, Init Local lp, Ensure_initial_commit Local lp, O5] @
        take k (adopt_steps s th Local lp Remote rp)"
    from cross th k have "snd (?P tr) = tr @ ?ext"
      by (simp add: prog_simps assert_folder_empty_apply snd_case_returns)
    moreover have "guarded w tr ?ext"
    proof (rule guardedI [where pre = "[O1, O2]"])
      fix n q
      assume "Init n q \<in> set ?ext"
      with notinit [of n q]
      have "(n = Local \<and> q = lp) \<or> Init n q \<in> set (take k (adopt_steps s th Local lp Remote rp))"
        by auto
      then have "(n = Local \<and> q = lp) \<or> (n = Remote \<and> q = rp)"
        by (auto dest: init_in_adopt_steps)
      with cross notinit [of n q]
      show "prefix [O1, O2] ?ext \<and> Init n q \<notin> set [O1, O2] \<and> \<not> refuses w (tr @ [O1, O2]) n q"
        by auto
    qed
    ultimately show ?thesis by blast
  qed
qed

lemma bootstrap_guarded:
  "\<exists>ext. snd (sync_bootstrap w s l r tr) = tr @ ext \<and> guarded w tr ext"
proof (cases "decision_table l r")
  case Compatible
  then have "present l" "present r" "l = r"
    by (auto simp: decision_table_def split: if_splits)
  then have eq: "sync_bootstrap w s l r =
     pthen (run w (Daemon Local (local_path s) l (gutd_bind_port s)))
    (pthen (run w (Daemon Remote (remote_path s) l (gutd_bind_port s)))
           (returns l))"
    by (rule bootstrap_compatible)
  let ?D1 = "Daemon Local (local_path s) l (gutd_bind_port s)"
  let ?D2 = "Daemon Remote (remote_path s) l (gutd_bind_port s)"
  have "snd (sync_bootstrap w s l r tr) = tr @ [?D1] \<or>
        snd (sync_bootstrap w s l r tr) = tr @ [?D1, ?D2]"
    unfolding eq by (simp add: prog_simps split: sum.splits)
  moreover have "guarded w tr [?D1]" "guarded w tr [?D1, ?D2]"
    by (simp_all add: guarded_def)
  ultimately show ?thesis by blast
next
  case Adopt_remote_from_local
  then have "present l" "\<not> present r"
    by (auto simp: decision_table_def split: if_splits)
  then have eq: "sync_bootstrap w s l r =
     pthen (status_out (''(@dim)Local gut repo base commit: ['' @ color_commit w l @ ''(@dim)]'' @ nl))
    (pthen (status_out (''(@dim)Remote gut repo base commit: ['' @ color_commit w r @ ''(@dim)]'' @ nl))
    (pthen (assert_folder_empty w s Remote (remote_path s))
    (pthen (status_out (''(@dim)Initializing remote repo from local repo...'' @ nl))
    (pthen (cross_init w s l Local (local_path s) Remote (remote_path s))
           (returns l)))))"
    by (rule bootstrap_adopt_remote)
  show ?thesis
    unfolding eq status_out_def by (intro adopt_guarded) simp
next
  case Adopt_local_from_remote
  then have "\<not> present l" "present r"
    by (auto simp: decision_table_def split: if_splits)
  then have eq: "sync_bootstrap w s l r =
     pthen (status_out (''(@dim)Local gut repo base commit: ['' @ color_commit w l @ ''(@dim)]'' @ nl))
    (pthen (status_out (''(@dim)Remote gut repo base commit: ['' @ color_commit w r @ ''(@dim)]'' @ nl))
    (pthen (assert_folder_empty w s Local (local_path s))
    (pthen (status_out (''(@dim)Initializing local folder from remote gut repo...'' @ nl))
    (pthen (cross_init w s r Remote (remote_path s) Local (local_path s))
           (returns r)))))"
    by (rule bootstrap_adopt_local)
  show ?thesis
    unfolding eq status_out_def by (intro adopt_guarded) simp
next
  case Initialize_both
  then have "\<not> present l" "\<not> present r"
    by (auto simp: decision_table_def split: if_splits)
  then have eq: "sync_bootstrap w s l r =
     pthen (status_out (''(@dim)Local gut repo base commit: ['' @ color_commit w l @ ''(@dim)]'' @ nl))
    (pthen (status_out (''(@dim)Remote gut repo base commit: ['' @ color_commit w r @ ''(@dim)]'' @ nl))
    (pthen (assert_folder_empty w s Remote (remote_path s))
    (pthen (assert_folder_empty w s Local (local_path s))
    (pthen (status_out (''(@dim)Initializing both local and remote gut repos...'' @ nl))
    (pthen (status_out (''(@dim)Initializing local repo first...'' @ nl))
    (pthen (run w (Init Local (local_path s)))
    (pthen (run w (Ensure_initial_commit Local (local_path s)))
    (pbind (get_tail_hash w Local (local_path s)) (\<lambda>tail_hash.
     pthen (status_out (''(@dim)Initializing remote repo from local repo...'' @ nl))
    (pthen (cross_init w s tail_hash Local (local_path s) Remote (remote_path s))
           (returns tail_hash)))))))))))"
    by (rule bootstrap_initialize_both)
  show ?thesis
    unfolding eq status_out_def by (intro initialize_both_guarded) simp
next
  case Incompatible
  then have "present l" "present r" "l \<noteq> r"
    by (auto simp: decision_table_def split: if_splits)
  then show ?thesis
    by (simp add: bootstrap_incompatible guarded_def)
qed

text \<open>
  C9. \<open>assert_folder_empty\<close> aborts exactly when the path exists and is not a
  directory or is a directory with an entry; otherwise it returns and has done nothing.
  Whatever the two tail hashes and whatever the collaborators answer, every \<open>Init\<close>
  that lines 237 to 269 issue comes after a moment at which the guard's condition was
  false for the context and path of that \<open>Init\<close>: no branch initializes a destination
  it has not guarded.
\<close>

theorem destination_guard:
  "(fst (assert_folder_empty w s ctx p tr) = Inl SystemExit \<longleftrightarrow>
      path_exists w tr ctx p \<and>
      (\<not> path_isdir w tr ctx p \<or> path_list w tr ctx p \<noteq> [])) \<and>
   (\<not> (path_exists w tr ctx p \<and>
       (\<not> path_isdir w tr ctx p \<or> path_list w tr ctx p \<noteq> [])) \<longrightarrow>
      assert_folder_empty w s ctx p tr = (Inr (), tr)) \<and>
   (\<exists>ext. snd (sync_bootstrap w s l r tr) = tr @ ext \<and>
      (\<forall>n q. Init n q \<in> set ext \<longrightarrow>
         (\<exists>xs. prefix xs ext \<and> Init n q \<notin> set xs \<and>
            \<not> (path_exists w (tr @ xs) n q \<and>
               (\<not> path_isdir w (tr @ xs) n q \<or> path_list w (tr @ xs) n q \<noteq> [])))))"
proof (intro conjI)
  show "fst (assert_folder_empty w s ctx p tr) = Inl SystemExit \<longleftrightarrow>
      path_exists w tr ctx p \<and>
      (\<not> path_isdir w tr ctx p \<or> path_list w tr ctx p \<noteq> [])"
    by (simp add: assert_folder_empty_apply refuses_def)
  show "\<not> (path_exists w tr ctx p \<and>
       (\<not> path_isdir w tr ctx p \<or> path_list w tr ctx p \<noteq> [])) \<longrightarrow>
      assert_folder_empty w s ctx p tr = (Inr (), tr)"
    by (simp add: assert_folder_empty_apply refuses_def)
  from bootstrap_guarded [of w s l r tr]
  show "\<exists>ext. snd (sync_bootstrap w s l r tr) = tr @ ext \<and>
      (\<forall>n q. Init n q \<in> set ext \<longrightarrow>
         (\<exists>xs. prefix xs ext \<and> Init n q \<notin> set xs \<and>
            \<not> (path_exists w (tr @ xs) n q \<and>
               (\<not> path_isdir w (tr @ xs) n q \<or> path_list w (tr @ xs) n q \<noteq> []))))"
    by (simp add: guarded_def refuses_def)
qed

theorem destination_guard_witness:
  "fst (assert_folder_empty example_world example_session Local ''work'' []) = Inl SystemExit \<and>
   assert_folder_empty example_world example_session Remote ''/srv/work'' [] = (Inr (), []) \<and>
   Init Remote ''/srv/work'' \<in>
     set (snd (sync_bootstrap example_world example_session (Some ''9f2c'') None [])) \<and>
   (\<exists>xs. prefix xs (snd (sync_bootstrap example_world example_session (Some ''9f2c'') None [])) \<and>
      Init Remote ''/srv/work'' \<notin> set xs \<and>
      \<not> path_exists example_world xs Remote ''/srv/work'')"
proof -
  note g = destination_guard [where w = example_world and s = example_session]
  from g [where ctx = Local and p = "''work''" and tr = "[]"]
  have 1: "fst (assert_folder_empty example_world example_session Local ''work'' []) = Inl SystemExit"
    by (simp add: example_world_def)
  from g [where ctx = Remote and p = "''/srv/work''" and tr = "[]"]
  have 2: "assert_folder_empty example_world example_session Remote ''/srv/work'' [] = (Inr (), [])"
    by (simp add: example_world_def)
  have 3: "Init Remote ''/srv/work'' \<in>
     set (snd (sync_bootstrap example_world example_session (Some ''9f2c'') None []))"
    by (simp add: sync_bootstrap_def truthy_def prog_simps assert_folder_empty_apply refuses_def
        cross_init_def example_world_def example_session_def)
  have pe: "\<not> path_exists example_world xs Remote q" for xs q
    by (simp add: example_world_def)
  from g [where l = "Some ''9f2c''" and r = None and tr = "[]" and ctx = Local and p = "''work''",
      THEN conjunct2, THEN conjunct2] 3
  have 4: "\<exists>xs. prefix xs (snd (sync_bootstrap example_world example_session (Some ''9f2c'') None [])) \<and>
      Init Remote ''/srv/work'' \<notin> set xs \<and>
      \<not> path_exists example_world xs Remote ''/srv/work''"
    by (auto simp: pe)
  from 1 2 3 4 show ?thesis by blast
qed

section \<open>\<open>commit_and_update\<close> and its guard\<close>

lemma commonprefix_loop_error:
  "commonprefix_loop s1 s2 i = Inl e \<Longrightarrow> e = IndexError"
proof (induction s1 s2 i rule: commonprefix_loop.induct)
  case (1 s1 s2 i)
  from "1.prems" show ?case
    by (subst (asm) commonprefix_loop.simps) (auto split: if_splits intro: "1.IH")
qed

lemma staging_prefix_error: "staging_prefix win paths = Inl e \<Longrightarrow> e = IndexError"
  by (auto simp: staging_prefix_def commonprefix_def Let_def
      split: option.splits if_splits sum.splits dest: commonprefix_loop_error)

lemma try_except_apply:
  "try_except body e handler tr =
     (case body tr of
        (Inl e', tr') \<Rightarrow> if e' = e then handler tr' else (Inl e', tr')
      | (Inr x, tr') \<Rightarrow> (Inr x, tr'))"
  by (simp add: try_except_def)

lemma call_apply: "call w a tr = (backend w tr a, tr @ [a])"
  by (simp add: call_def)

lemma commit_and_update_cases:
  assumes sel: "(sc, sp, dc, dp) =
       (if sys = ''local'' then (Local, local_path s, Remote, remote_path s)
        else (Remote, remote_path s, Local, local_path s))"
    and pre: "staging_prefix (is_windows s sc) paths = Inr pre"
  shows "commit_and_update w s sys paths uu tr =
     (case backend w tr (Commit sc sp pre uu) of
        Inl e \<Rightarrow>
          if e = ProcessExecutionError
          then (Inr (), tr @ [Commit sc sp pre uu, Status_out error_msg, Print_exc])
          else (Inl e, tr @ [Commit sc sp pre uu])
      | Inr committed \<Rightarrow>
          if committed
          then (case backend w (tr @ [Commit sc sp pre uu]) (Pull dc dp) of
                  Inl e \<Rightarrow>
                    if e = ProcessExecutionError
                    then (Inr (), tr @ [Commit sc sp pre uu, Pull dc dp, Status_out error_msg, Print_exc])
                    else (Inl e, tr @ [Commit sc sp pre uu, Pull dc dp])
                | Inr b \<Rightarrow> (Inr (), tr @ [Commit sc sp pre uu, Pull dc dp]))
          else (Inr (), tr @ [Commit sc sp pre uu]))"
proof (cases "sys = ''local''")
  case True
  with sel have "sc = Local" "sp = local_path s" "dc = Remote" "dp = remote_path s" by simp_all
  with True pre show ?thesis
    by (simp add: commit_and_update_def try_except_apply prog_simps call_apply
        split: sum.splits)
next
  case False
  with sel have "sc = Remote" "sp = remote_path s" "dc = Local" "dp = local_path s" by simp_all
  with False pre show ?thesis
    by (simp add: commit_and_update_def try_except_apply prog_simps call_apply
        split: sum.splits)
qed

lemma commit_and_update_not_caught:
  "fst (commit_and_update w s sys paths uu tr) \<noteq> Inl ProcessExecutionError"
proof -
  obtain sc sp dc dp where sel: "(sc, sp, dc, dp) =
       (if sys = ''local'' then (Local, local_path s, Remote, remote_path s)
        else (Remote, remote_path s, Local, local_path s))"
    by (metis prod_cases4)
  show ?thesis
  proof (cases "staging_prefix (is_windows s sc) paths")
    case (Inl e)
    then have "e = IndexError" by (rule staging_prefix_error)
    with Inl sel show ?thesis
      by (auto simp: commit_and_update_def raise_def split: if_splits)
  next
    case (Inr pre)
    show ?thesis
      unfolding commit_and_update_cases [OF sel Inr]
      by (simp split: sum.splits)
  qed
qed

lemma flush_not_caught: "fst (flush w s ignore items tr) \<noteq> Inl ProcessExecutionError"
proof (induction items arbitrary: tr)
  case Nil
  then show ?case by (simp add: returns_def)
next
  case (Cons item items)
  obtain system paths where item: "item = (system, paths)" by (cases item)
  show ?case
  proof (cases "commit_and_update w s system (Some paths) (system \<in> ignore) tr")
    case (Pair r tr')
    with commit_and_update_not_caught [of w s system "Some paths" "system \<in> ignore" tr]
    have "r \<noteq> Inl ProcessExecutionError" by simp
    with Pair item Cons.IH [of tr'] show ?thesis
      by (cases r) (simp_all add: pthen_apply)
  qed
qed

lemma on_change_returns: "\<exists>st' msg. on_change s system path st tr = (Inr st', tr @ [Status_out msg])"
  by (simp add: on_change_def Let_def prog_simps)

lemma sync_loop_not_caught:
  "fst (sync_loop w s arrivals st tr) \<noteq> Raised ProcessExecutionError"
proof (induction w s arrivals st tr rule: sync_loop.induct)
  case (1 w s st tr)
  then show ?case by simp
next
  case (2 w s arrivals st tr)
  show ?case
  proof (cases "changed st = []")
    case True
    with 2 show ?thesis by simp
  next
    case False
    obtain r tr' where f: "flush w s (changed_ignore st) (changed st) tr = (r, tr')"
      by (cases "flush w s (changed_ignore st) (changed st) tr")
    with flush_not_caught [of w s "changed_ignore st" "changed st" tr]
    have "r \<noteq> Inl ProcessExecutionError" by simp
    with False f 2 show ?thesis by (cases r) auto
  qed
next
  case (3 w s arrivals st tr)
  then show ?case by simp
next
  case (4 w s system path arrivals st tr)
  from on_change_returns [of s system path st tr]
  obtain st' msg where "on_change s system path st tr = (Inr st', tr @ [Status_out msg])"
    by blast
  with 4 show ?case by simp
qed

section \<open>Change events\<close>

lemma split_not_Nil: "split sep p \<noteq> []"
  by (induction p) (auto split: list.splits)

lemma map_of_add_path:
  "map_of (AList.map_entry k (insert x)
             (if k \<notin> fst ` set al then AList.update k {} al else al)) =
   (map_of al)(k \<mapsto> insert x (case map_of al k of None \<Rightarrow> {} | Some P \<Rightarrow> P))"
proof (cases "k \<in> fst ` set al")
  case True
  then obtain P where "map_of al k = Some P"
    by (metis map_of_eq_None_iff not_Some_eq)
  with True show ?thesis
    by (auto simp: map_of_map_entry fun_eq_iff)
next
  case False
  then have "map_of al k = None" by (simp add: map_of_eq_None_iff)
  with False show ?thesis
    by (auto simp: map_of_map_entry update_conv' fun_eq_iff)
qed

lemma on_change_merged:
  assumes "''.gut'' \<notin> set (split (os_sep s) path)"
  shows "\<exists>st' msg. on_change s system path st tr = (Inr st', tr @ [Status_out msg]) \<and>
     map_of (changed st') =
       (map_of (changed st))(system \<mapsto>
          insert path (case map_of (changed st) system of None \<Rightarrow> {} | Some P \<Rightarrow> P)) \<and>
     changed_ignore st' =
       (if last (split (os_sep s) path) = ''.gutignore''
        then insert system (changed_ignore st) else changed_ignore st)"
  using assms
  by (simp add: on_change_def Let_def prog_simps map_of_add_path)

lemma on_change_dropped:
  assumes "''.gut'' \<in> set (split (os_sep s) path)"
  shows "on_change s system path st tr =
     (Inr st, tr @ [Status_out (''ignoring changed '' @ system @ '' '' @ path @ nl)])"
  using assms by (simp add: on_change_def Let_def prog_simps)

lemma commit_and_update_starts:
  assumes sel: "(sc, sp, dc, dp) =
       (if sys = ''local'' then (Local, local_path s, Remote, remote_path s)
        else (Remote, remote_path s, Local, local_path s))"
    and pre: "staging_prefix (is_windows s sc) paths = Inr pre"
  shows "\<exists>rest. snd (commit_and_update w s sys paths uu tr) = tr @ Commit sc sp pre uu # rest \<and>
           filter is_commit rest = [] \<and>
           set rest \<subseteq> {Pull dc dp, Status_out error_msg, Print_exc}"
  unfolding commit_and_update_cases [OF sel pre]
  by (simp split: sum.splits)

lemma gutignore_rescan:
  assumes "''.gut'' \<notin> set (split (os_sep s) path)"
    and "last (split (os_sep s) path) = ''.gutignore''"
  shows "\<exists>pre. Commit (if system = ''local'' then Local else Remote)
                  (if system = ''local'' then local_path s else remote_path s) pre True
           \<in> set (snd (snd (sync_loop w s [Got (Change system path), TimeoutError]
                               \<lparr>changed = [], changed_ignore = {}\<rparr> tr)))"
proof -
  let ?sc = "if system = ''local'' then Local else Remote"
  let ?sp = "if system = ''local'' then local_path s else remote_path s"
  let ?dc = "if system = ''local'' then Remote else Local"
  let ?dp = "if system = ''local'' then remote_path s else local_path s"
  let ?msg = "''changed_ignore '' @ path @ '' on '' @ system @ nl"
  let ?tr1 = "tr @ [Status_out ?msg]"
  have oc: "on_change s system path \<lparr>changed = [], changed_ignore = {}\<rparr> tr =
      (Inr \<lparr>changed = [(system, {path})], changed_ignore = {system}\<rparr>, ?tr1)"
    using assms by (simp add: on_change_def Let_def prog_simps)
  have sel: "(?sc, ?sp, ?dc, ?dp) =
       (if system = ''local'' then (Local, local_path s, Remote, remote_path s)
        else (Remote, remote_path s, Local, local_path s))"
    by simp
  obtain pre where pre: "staging_prefix (is_windows s ?sc) (Some {path}) = Inr pre"
    using staging_prefix_total [of "{path}"] by blast
  from commit_and_update_starts [OF sel pre, of w True ?tr1]
  obtain rest where rest:
    "snd (commit_and_update w s system (Some {path}) True ?tr1) = ?tr1 @ Commit ?sc ?sp pre True # rest"
    by blast
  obtain r tr2 where cu: "commit_and_update w s system (Some {path}) True ?tr1 = (r, tr2)"
    by (cases "commit_and_update w s system (Some {path}) True ?tr1")
  with rest have tr2: "tr2 = ?tr1 @ Commit ?sc ?sp pre True # rest" by simp
  have "Commit ?sc ?sp pre True
           \<in> set (snd (snd (sync_loop w s [Got (Change system path), TimeoutError]
                               \<lparr>changed = [], changed_ignore = {}\<rparr> tr)))"
    using oc cu tr2 by (cases r) (simp_all add: pthen_apply returns_apply)
  then show ?thesis by blast
qed

lemma join_split: "join sep (split sep p) = p"
proof (induction p)
  case Nil
  then show ?case by simp
next
  case (Cons c p)
  obtain q qs where q: "split sep p = q # qs"
    using split_not_Nil [of sep p] by (cases "split sep p") auto
  with Cons show ?case by (cases qs) auto
qed

lemma split_parts_free: "x \<in> set (split sep p) \<Longrightarrow> sep \<notin> set x"
proof (induction p arbitrary: x)
  case Nil
  then show ?case by simp
next
  case (Cons c p)
  obtain q qs where q: "split sep p = q # qs"
    using split_not_Nil [of sep p] by (cases "split sep p") auto
  with Cons show ?case by (auto split: if_splits)
qed


lemma split_append: "split sep (a @ sep # b) = split sep a @ split sep b"
proof (induction a)
  case Nil
  then show ?case by simp
next
  case (Cons c a)
  obtain q qs where q: "split sep a = q # qs"
    using split_not_Nil [of sep a] by (cases "split sep a") auto
  with Cons show ?case by simp
qed

lemma split_free: "sep \<notin> set x \<Longrightarrow> split sep x = [x]"
  by (induction x) auto

lemma join_append_Cons:
  "join sep (xs @ x # ys) =
     (if xs = [] then [] else join sep xs @ [sep]) @ x @ (if ys = [] then [] else sep # join sep ys)"
proof (induction xs)
  case Nil
  then show ?case by (cases ys) simp_all
next
  case (Cons a xs)
  then show ?case by (cases xs) simp_all
qed

lemma part_of_path:
  assumes "x \<in> set (split sep path)"
  shows "\<exists>a b. path = a @ x @ b \<and> (a = [] \<or> (\<exists>a'. a = a' @ [sep])) \<and>
           (b = [] \<or> (\<exists>b'. b = sep # b'))"
proof -
  from assms obtain xs ys where "split sep path = xs @ x # ys"
    by (auto dest: split_list)
  then have "join sep (split sep path) = join sep (xs @ x # ys)" by simp
  then have "path = (if xs = [] then [] else join sep xs @ [sep]) @ x @
      (if ys = [] then [] else sep # join sep ys)"
    by (simp only: join_split join_append_Cons)
  then show ?thesis by (intro exI conjI, assumption) auto
qed

lemma in_split_iff:
  assumes free: "sep \<notin> set name"
  shows "name \<in> set (split sep path) \<longleftrightarrow> in_dir_named sep name path"
proof
  assume "name \<in> set (split sep path)"
  from part_of_path [OF this]
  obtain a b where ab: "path = a @ name @ b" "a = [] \<or> (\<exists>a'. a = a' @ [sep])"
    "b = [] \<or> (\<exists>b'. b = sep # b')"
    by blast
  let ?d = "a @ name"
  from ab(1) have "?d \<in> set (prefixes path)" by (simp add: in_set_prefixes prefix_def)
  moreover from ab(2) have "dir_named sep name ?d"
    by (auto simp: dir_named_def suffix_def)
  moreover from ab(1,3) have "under_dir sep ?d path"
    by (auto simp: under_dir_def prefix_def)
  ultimately show "in_dir_named sep name path"
    unfolding in_dir_named_def by blast
next
  assume "in_dir_named sep name path"
  then obtain d where d: "dir_named sep name d" "under_dir sep d path"
    unfolding in_dir_named_def by blast
  from d(1) consider "d = name" | a where "d = a @ sep # name"
    by (auto simp: dir_named_def suffix_def)
  then have sd: "name \<in> set (split sep d)"
  proof cases
    case 1
    with free show ?thesis by (simp add: split_free)
  next
    case 2
    with free show ?thesis by (simp add: split_append split_free)
  qed
  from d(2) consider "path = d" | b where "path = d @ sep # b"
    by (auto simp: under_dir_def prefix_def)
  then show "name \<in> set (split sep path)"
  proof cases
    case 1
    with sd show ?thesis by simp
  next
    case 2
    with sd show ?thesis by (simp add: split_append)
  qed
qed

lemma last_split_iff:
  assumes free: "sep \<notin> set name"
  shows "last (split sep path) = name \<longleftrightarrow> dir_named sep name path"
proof
  assume l: "last (split sep path) = name"
  have ne: "split sep path \<noteq> []" by (rule split_not_Nil)
  then have "split sep path = butlast (split sep path) @ [last (split sep path)]" by simp
  with l have "split sep path = butlast (split sep path) @ name # []" by simp
  then have "join sep (split sep path) = join sep (butlast (split sep path) @ name # [])" by simp
  then have "path = (if butlast (split sep path) = [] then []
      else join sep (butlast (split sep path)) @ [sep]) @ name"
    by (simp only: join_split join_append_Cons) simp
  then show "dir_named sep name path"
    by (auto simp: dir_named_def suffix_def split: if_splits)
next
  assume "dir_named sep name path"
  then consider "path = name" | a where "path = a @ sep # name"
    by (auto simp: dir_named_def suffix_def)
  then show "last (split sep path) = name"
  proof cases
    case 1
    with free show ?thesis by (simp add: split_free)
  next
    case 2
    with free show ?thesis by (simp add: split_append split_free)
  qed
qed

lemma under_metadata_in_dir: "under_metadata_dir sep path \<Longrightarrow> in_dir_named sep ''.gut'' path"
  unfolding under_metadata_dir_def in_dir_named_def
  by (rule bexI [of _ "''.gut''"]) (auto simp: dir_named_def under_dir_def in_set_prefixes prefix_def)

lemma separator_free: "separator win \<notin> set ''.gut''" "separator win \<notin> set ''.gutignore''"
  by (simp_all add: separator_def)

text \<open>
  C4, as the code has it, for an event of a node whose separator is \<open>os.sep\<close> of the
  machine that runs the loop. When the path is in no directory named \<open>.gut\<close>, at any
  depth, it is added to the set that \<open>changed\<close> holds for the event's system (a new
  set if there was none), the other systems keep theirs, the system enters
  \<open>changed_ignore\<close> exactly when the path's last component is \<open>.gutignore\<close>, and one
  line is logged. When the path is in a directory named \<open>.gut\<close>, as every path under
  the metadata directory is, nothing changes but the log. The loop goes on with that
  state. A sole event on \<open>.gutignore\<close> followed by a debounce window makes the flush
  commit on that system with \<open>update_untracked=True\<close>.
\<close>

theorem change_event_merged:
  assumes "os_sep s = separator (is_windows s (if system = ''local'' then Local else Remote))"
  shows
  "(\<not> in_dir_named (os_sep s) ''.gut'' path \<longrightarrow>
      (\<exists>st' msg. on_change s system path st tr = (Inr st', tr @ [Status_out msg]) \<and>
         map_of (changed st') =
           (map_of (changed st))(system \<mapsto>
              insert path (case map_of (changed st) system of None \<Rightarrow> {} | Some P \<Rightarrow> P)) \<and>
         changed_ignore st' =
           (if dir_named (os_sep s) ''.gutignore'' path
            then insert system (changed_ignore st) else changed_ignore st))) \<and>
   (in_dir_named (os_sep s) ''.gut'' path \<longrightarrow>
      on_change s system path st tr =
        (Inr st, tr @ [Status_out (''ignoring changed '' @ system @ '' '' @ path @ nl)])) \<and>
   (under_metadata_dir (os_sep s) path \<longrightarrow>
      on_change s system path st tr =
        (Inr st, tr @ [Status_out (''ignoring changed '' @ system @ '' '' @ path @ nl)])) \<and>
   (\<exists>st' tr'. on_change s system path st tr = (Inr st', tr') \<and>
      sync_loop w s (Got (Change system path) # arrivals) st tr = sync_loop w s arrivals st' tr') \<and>
   (\<not> in_dir_named (os_sep s) ''.gut'' path \<and> dir_named (os_sep s) ''.gutignore'' path \<longrightarrow>
      (\<exists>pre. Commit (if system = ''local'' then Local else Remote)
                 (if system = ''local'' then local_path s else remote_path s) pre True
           \<in> set (snd (snd (sync_loop w s [Got (Change system path), TimeoutError]
                               \<lparr>changed = [], changed_ignore = {}\<rparr> tr)))))"
proof -
  from assms have free: "os_sep s \<notin> set ''.gut''" "os_sep s \<notin> set ''.gutignore''"
    using separator_free by metis+
  note gut = in_split_iff [OF free(1), of path]
  note ign = last_split_iff [OF free(2), of path]
  have 1: "\<not> in_dir_named (os_sep s) ''.gut'' path \<longrightarrow>
      (\<exists>st' msg. on_change s system path st tr = (Inr st', tr @ [Status_out msg]) \<and>
         map_of (changed st') =
           (map_of (changed st))(system \<mapsto>
              insert path (case map_of (changed st) system of None \<Rightarrow> {} | Some P \<Rightarrow> P)) \<and>
         changed_ignore st' =
           (if dir_named (os_sep s) ''.gutignore'' path
            then insert system (changed_ignore st) else changed_ignore st))"
    unfolding gut [symmetric] ign [symmetric] using on_change_merged [of s path system st tr]
    by blast
  have 2: "in_dir_named (os_sep s) ''.gut'' path \<longrightarrow>
      on_change s system path st tr =
        (Inr st, tr @ [Status_out (''ignoring changed '' @ system @ '' '' @ path @ nl)])"
    unfolding gut [symmetric] using on_change_dropped [of s path system st tr] by blast
  have 3: "under_metadata_dir (os_sep s) path \<longrightarrow>
      on_change s system path st tr =
        (Inr st, tr @ [Status_out (''ignoring changed '' @ system @ '' '' @ path @ nl)])"
    using 2 under_metadata_in_dir [of "os_sep s" path] by blast
  from on_change_returns [of s system path st tr]
  obtain st' msg where "on_change s system path st tr = (Inr st', tr @ [Status_out msg])"
    by blast
  then have 4: "\<exists>st' tr'. on_change s system path st tr = (Inr st', tr') \<and>
      sync_loop w s (Got (Change system path) # arrivals) st tr = sync_loop w s arrivals st' tr'"
    by simp
  have 5: "\<not> in_dir_named (os_sep s) ''.gut'' path \<and> dir_named (os_sep s) ''.gutignore'' path \<longrightarrow>
      (\<exists>pre. Commit (if system = ''local'' then Local else Remote)
                 (if system = ''local'' then local_path s else remote_path s) pre True
           \<in> set (snd (snd (sync_loop w s [Got (Change system path), TimeoutError]
                               \<lparr>changed = [], changed_ignore = {}\<rparr> tr))))"
    unfolding gut [symmetric] ign [symmetric]
    using gutignore_rescan [of s path system w tr] by blast
  from 1 2 3 4 5 show ?thesis by (intro conjI)
qed

theorem change_event_merged_witness:
  "os_sep example_session =
     separator (is_windows example_session (if ''remote'' = ''local'' then Local else Remote)) \<and>
   \<not> in_dir_named (os_sep example_session) ''.gut'' ''docs/.gutignore'' \<and>
   dir_named (os_sep example_session) ''.gutignore'' ''docs/.gutignore'' \<and>
   (\<exists>st' msg. on_change example_session ''remote'' ''docs/.gutignore''
                  \<lparr>changed = [], changed_ignore = {}\<rparr> [] = (Inr st', [Status_out msg]) \<and>
      map_of (changed st') ''remote'' = Some {''docs/.gutignore''} \<and>
      changed_ignore st' = {''remote''}) \<and>
   under_metadata_dir (os_sep example_session) ''.gut/index'' \<and>
   on_change example_session ''remote'' ''.gut/index'' \<lparr>changed = [], changed_ignore = {}\<rparr> [] =
     (Inr \<lparr>changed = [], changed_ignore = {}\<rparr>,
      [Status_out (''ignoring changed remote .gut/index'' @ nl)])"
proof -
  have sep: "os_sep example_session = CHR ''/''" by (simp add: example_session_def)
  have h: "os_sep example_session =
     separator (is_windows example_session (if ''remote'' = ''local'' then Local else Remote))"
    by (simp add: example_session_def separator_def)
  have free: "CHR ''/'' \<notin> set ''.gut''" by simp
  have "''.gut'' \<notin> set (split CHR ''/'' ''docs/.gutignore'')" by simp
  then have a: "\<not> in_dir_named (os_sep example_session) ''.gut'' ''docs/.gutignore''"
    unfolding sep in_split_iff [OF free] .
  have b: "dir_named (os_sep example_session) ''.gutignore'' ''docs/.gutignore''"
    unfolding sep dir_named_def suffix_def
    by (rule disjI2, rule exI [of _ "''docs''"]) simp
  have c: "under_metadata_dir (os_sep example_session) ''.gut/index''"
    by (simp add: sep under_metadata_dir_def under_dir_def)
  note t = change_event_merged [OF h, where tr = "[]"
      and st = "\<lparr>changed = [], changed_ignore = {}\<rparr>"]
  from t [where path = "''docs/.gutignore''", THEN conjunct1, THEN mp, OF a]
  obtain st' msg where st':
    "on_change example_session ''remote'' ''docs/.gutignore''
        \<lparr>changed = [], changed_ignore = {}\<rparr> [] = (Inr st', [Status_out msg])"
    "map_of (changed st') = (Map.empty)(''remote'' \<mapsto> {''docs/.gutignore''})"
    "changed_ignore st' = {''remote''}"
    using b by auto
  from st'(2) have "map_of (changed st') ''remote'' = Some {''docs/.gutignore''}"
    by simp
  with st'(1,3)
  have 1: "\<exists>st' msg. on_change example_session ''remote'' ''docs/.gutignore''
                  \<lparr>changed = [], changed_ignore = {}\<rparr> [] = (Inr st', [Status_out msg]) \<and>
      map_of (changed st') ''remote'' = Some {''docs/.gutignore''} \<and>
      changed_ignore st' = {''remote''}"
    by blast
  from t [where path = "''.gut/index''", THEN conjunct2, THEN conjunct2, THEN conjunct1, THEN mp, OF c]
  have 2: "on_change example_session ''remote'' ''.gut/index'' \<lparr>changed = [], changed_ignore = {}\<rparr> [] =
     (Inr \<lparr>changed = [], changed_ignore = {}\<rparr>,
      [Status_out (''ignoring changed remote .gut/index'' @ nl)])"
    by simp
  from h a b c 1 2 show ?thesis by blast
qed

text \<open>
  C4 as the claim words it, every path that is not under the metadata directory being
  added, fails for a path in a directory named \<open>.gut\<close> further down: it is not under
  the metadata directory of the synced directory, and the event is dropped.
\<close>

theorem nested_gut_counterexample:
  "\<not> under_metadata_dir (os_sep example_session) ''sub/.gut/x'' \<and>
   on_change example_session ''local'' ''sub/.gut/x'' \<lparr>changed = [], changed_ignore = {}\<rparr> [] =
     (Inr \<lparr>changed = [], changed_ignore = {}\<rparr>,
      [Status_out (''ignoring changed local sub/.gut/x'' @ nl)])"
  by (simp add: under_metadata_dir_def under_dir_def on_change_def Let_def prog_simps
      example_session_def)

text \<open>
  Line 345 splits at \<open>os.sep\<close> of the machine that runs the loop, where line 299 takes
  the separator of the node. For a remote side on Windows and a loop where \<open>os.sep\<close> is
  \<open>/\<close>, a path under the remote metadata directory is not dropped.
\<close>

lemma windows_remote_metadata_event_merged:
  "under_metadata_dir (separator (is_windows windows_remote_session Remote))
     (''.gut'' @ [CHR 0x5C] @ ''index'') \<and>
   on_change windows_remote_session ''remote'' (''.gut'' @ [CHR 0x5C] @ ''index'')
       \<lparr>changed = [], changed_ignore = {}\<rparr> [] =
     (Inr \<lparr>changed = [(''remote'', {''.gut'' @ [CHR 0x5C] @ ''index''})], changed_ignore = {}\<rparr>,
      [Status_out (''changed remote '' @ ''.gut'' @ [CHR 0x5C] @ ''index'' @ nl)])"
  by (simp add: under_metadata_dir_def under_dir_def separator_def on_change_def Let_def prog_simps
      windows_remote_session_def example_session_def)

section \<open>The guard of \<open>commit_and_update\<close> and the loop\<close>

lemma commit_and_update_returns:
  assumes pee: "\<forall>tr' a e. backend w tr' a = Inl e \<longrightarrow> e = ProcessExecutionError"
    and fin: "finite paths"
  shows "fst (commit_and_update w s sys (Some paths) uu tr) = Inr ()"
proof -
  obtain sc sp dc dp where sel: "(sc, sp, dc, dp) =
       (if sys = ''local'' then (Local, local_path s, Remote, remote_path s)
        else (Remote, remote_path s, Local, local_path s))"
    by (metis prod_cases4)
  obtain pre where pre: "staging_prefix (is_windows s sc) (Some paths) = Inr pre"
    using staging_prefix_total [OF fin] by blast
  show ?thesis
    unfolding commit_and_update_cases [OF sel pre]
    using pee by (auto split: sum.splits)
qed

lemma flush_returns:
  assumes pee: "\<forall>tr' a e. backend w tr' a = Inl e \<longrightarrow> e = ProcessExecutionError"
    and fin: "\<forall>item\<in>set items. finite (snd item)"
  shows "fst (flush w s ignore items tr) = Inr ()"
  using fin
proof (induction items arbitrary: tr)
  case Nil
  then show ?case by (simp add: returns_def)
next
  case (Cons item items)
  obtain system paths where item: "item = (system, paths)" by (cases item)
  with Cons.prems have "finite paths" by simp
  from commit_and_update_returns [OF pee this, of s system "system \<in> ignore" tr]
  obtain tr' where "commit_and_update w s system (Some paths) (system \<in> ignore) tr = (Inr (), tr')"
    by (metis prod.collapse)
  with item Cons show ?case by (simp add: pthen_apply)
qed

lemma finite_items_update:
  "\<forall>item\<in>set al. finite (snd item) \<Longrightarrow> finite v \<Longrightarrow>
   \<forall>item\<in>set (AList.update k v al). finite (snd item)"
  by (induction al) auto

lemma finite_items_map_entry:
  "\<forall>item\<in>set al. finite (snd item) \<Longrightarrow>
   \<forall>item\<in>set (AList.map_entry k (insert x) al). finite (snd item)"
  by (induction al) auto

lemma on_change_finite:
  assumes fin: "\<forall>item\<in>set (changed st). finite (snd item)"
  shows "\<exists>st' msg. on_change s system path st tr = (Inr st', tr @ [Status_out msg]) \<and>
           (\<forall>item\<in>set (changed st'). finite (snd item))"
proof (cases "''.gut'' \<in> set (split (os_sep s) path)")
  case True
  with fin show ?thesis by (simp add: on_change_dropped)
next
  case False
  let ?c1 = "if system \<notin> fst ` set (changed st)
             then AList.update system {} (changed st) else changed st"
  let ?c2 = "AList.map_entry system (insert path) ?c1"
  from fin have "\<forall>item\<in>set ?c1. finite (snd item)"
    using finite_items_update [of "changed st" "{}" system] by simp
  then have c2: "\<forall>item\<in>set ?c2. finite (snd item)"
    by (rule finite_items_map_entry)
  show ?thesis
  proof (cases "last (split (os_sep s) path) = ''.gutignore''")
    case True
    with False have "on_change s system path st tr =
        (Inr (st\<lparr>changed := ?c2, changed_ignore := insert system (changed_ignore st)\<rparr>),
         tr @ [Status_out (''changed_ignore '' @ path @ '' on '' @ system @ nl)])"
      by (simp add: on_change_def Let_def prog_simps)
    moreover from c2 have "\<forall>item\<in>set (changed (st\<lparr>changed := ?c2,
        changed_ignore := insert system (changed_ignore st)\<rparr>)). finite (snd item)"
      by simp
    ultimately show ?thesis by blast
  next
    case notignore: False
    with False have "on_change s system path st tr =
        (Inr (st\<lparr>changed := ?c2\<rparr>),
         tr @ [Status_out (''changed '' @ system @ '' '' @ path @ nl)])"
      by (simp add: on_change_def Let_def prog_simps)
    moreover from c2 have "\<forall>item\<in>set (changed (st\<lparr>changed := ?c2\<rparr>)). finite (snd item)"
      by simp
    ultimately show ?thesis by blast
  qed
qed

lemma sync_loop_never_raises:
  assumes pee: "\<forall>tr' a e. backend w tr' a = Inl e \<longrightarrow> e = ProcessExecutionError"
  shows "\<forall>item\<in>set (changed st). finite (snd item) \<Longrightarrow>
         fst (sync_loop w s arrivals st tr) = Returned \<or> fst (sync_loop w s arrivals st tr) = Waiting"
proof (induction arrivals arbitrary: st tr)
  case Nil
  then show ?case by simp
next
  case (Cons a arrivals)
  show ?case
  proof (cases a)
    case TimeoutError
    show ?thesis
    proof (cases "changed st = []")
      case True
      with TimeoutError Cons show ?thesis by simp
    next
      case False
      from flush_returns [OF pee Cons.prems, of s "changed_ignore st" tr]
      obtain tr' where f: "flush w s (changed_ignore st) (changed st) tr = (Inr (), tr')"
        by (metis prod.collapse)
      have "\<forall>item\<in>set (changed (st\<lparr>changed := [], changed_ignore := {}\<rparr>)). finite (snd item)"
        by simp
      from Cons.IH [OF this, of tr'] TimeoutError False f show ?thesis by simp
    qed
  next
    case (Got ev)
    show ?thesis
    proof (cases ev)
      case SHUTDOWN_STR
      with Got show ?thesis by simp
    next
      case (Change system path)
      from on_change_finite [OF Cons.prems, of s system path tr]
      obtain st' msg where st': "on_change s system path st tr = (Inr st', tr @ [Status_out msg])"
        "\<forall>item\<in>set (changed st'). finite (snd item)"
        by blast
      from Cons.IH [OF st'(2), of "tr @ [Status_out msg]"] Got Change st'(1)
      show ?thesis by simp
    qed
  qed
qed

text \<open>
  C3, as the code has it. The \<open>try\<close> of \<open>commit_and_update\<close> holds the commit and
  the pull that follows it: a \<open>ProcessExecutionError\<close> of either is caught, the
  diagnostic and the stack trace are printed, and the operation returns; any other
  exception of either passes through. So the operation never ends with a
  \<open>ProcessExecutionError\<close>, and neither does the loop. When the flush of a debounce
  window returns, the loop clears what was pending and goes on with the arrivals that
  follow; and where \<open>ProcessExecutionError\<close> is the only exception the commands raise,
  every flush returns and the loop ends only by the sentinel or is still waiting.
\<close>

theorem commit_and_pull_guarded:
  assumes "(sc, sp, dc, dp) =
       (if sys = ''local'' then (Local, local_path s, Remote, remote_path s)
        else (Remote, remote_path s, Local, local_path s))"
    and "staging_prefix (is_windows s sc) paths = Inr pre"
  shows
   "(backend w tr (Commit sc sp pre uu) = Inl ProcessExecutionError \<longrightarrow>
       commit_and_update w s sys paths uu tr =
         (Inr (), tr @ [Commit sc sp pre uu, Status_out error_msg, Print_exc])) \<and>
    (backend w tr (Commit sc sp pre uu) = Inr True \<and>
     backend w (tr @ [Commit sc sp pre uu]) (Pull dc dp) = Inl ProcessExecutionError \<longrightarrow>
       commit_and_update w s sys paths uu tr =
         (Inr (), tr @ [Commit sc sp pre uu, Pull dc dp, Status_out error_msg, Print_exc])) \<and>
    (\<forall>e. e \<noteq> ProcessExecutionError \<and> backend w tr (Commit sc sp pre uu) = Inl e \<longrightarrow>
       commit_and_update w s sys paths uu tr = (Inl e, tr @ [Commit sc sp pre uu])) \<and>
    (\<forall>e. e \<noteq> ProcessExecutionError \<and> backend w tr (Commit sc sp pre uu) = Inr True \<and>
         backend w (tr @ [Commit sc sp pre uu]) (Pull dc dp) = Inl e \<longrightarrow>
       commit_and_update w s sys paths uu tr = (Inl e, tr @ [Commit sc sp pre uu, Pull dc dp])) \<and>
    (\<forall>b. backend w tr (Commit sc sp pre uu) = Inr True \<and>
         backend w (tr @ [Commit sc sp pre uu]) (Pull dc dp) = Inr b \<longrightarrow>
       commit_and_update w s sys paths uu tr = (Inr (), tr @ [Commit sc sp pre uu, Pull dc dp])) \<and>
    (backend w tr (Commit sc sp pre uu) = Inr False \<longrightarrow>
       commit_and_update w s sys paths uu tr = (Inr (), tr @ [Commit sc sp pre uu])) \<and>
    fst (commit_and_update w s sys paths uu tr) \<noteq> Inl ProcessExecutionError \<and>
    fst (sync_loop w s arrivals st tr) \<noteq> Raised ProcessExecutionError \<and>
    (changed st \<noteq> [] \<and> fst (flush w s (changed_ignore st) (changed st) tr) = Inr () \<longrightarrow>
       sync_loop w s (TimeoutError # arrivals) st tr =
         sync_loop w s arrivals (st\<lparr>changed := [], changed_ignore := {}\<rparr>)
           (snd (flush w s (changed_ignore st) (changed st) tr))) \<and>
    ((\<forall>tr' a e. backend w tr' a = Inl e \<longrightarrow> e = ProcessExecutionError) \<and>
     (\<forall>item\<in>set (changed st). finite (snd item)) \<longrightarrow>
       fst (flush w s (changed_ignore st) (changed st) tr) = Inr () \<and>
       (fst (sync_loop w s arrivals st tr) = Returned \<or>
        fst (sync_loop w s arrivals st tr) = Waiting))"
proof -
  note c = commit_and_update_cases [OF assms, of w uu tr]
  have 1: "fst (commit_and_update w s sys paths uu tr) \<noteq> Inl ProcessExecutionError"
    by (rule commit_and_update_not_caught)
  have 2: "fst (sync_loop w s arrivals st tr) \<noteq> Raised ProcessExecutionError"
    by (rule sync_loop_not_caught)
  have 3: "changed st \<noteq> [] \<and> fst (flush w s (changed_ignore st) (changed st) tr) = Inr () \<longrightarrow>
       sync_loop w s (TimeoutError # arrivals) st tr =
         sync_loop w s arrivals (st\<lparr>changed := [], changed_ignore := {}\<rparr>)
           (snd (flush w s (changed_ignore st) (changed st) tr))"
    by (cases "flush w s (changed_ignore st) (changed st) tr") auto
  have 4: "(\<forall>tr' a e. backend w tr' a = Inl e \<longrightarrow> e = ProcessExecutionError) \<and>
     (\<forall>item\<in>set (changed st). finite (snd item)) \<longrightarrow>
       fst (flush w s (changed_ignore st) (changed st) tr) = Inr () \<and>
       (fst (sync_loop w s arrivals st tr) = Returned \<or>
        fst (sync_loop w s arrivals st tr) = Waiting)"
    using flush_returns [of w "changed st" s "changed_ignore st" tr]
      sync_loop_never_raises [of w st s arrivals tr]
    by blast
  have 0: "(backend w tr (Commit sc sp pre uu) = Inl ProcessExecutionError \<longrightarrow>
       commit_and_update w s sys paths uu tr =
         (Inr (), tr @ [Commit sc sp pre uu, Status_out error_msg, Print_exc])) \<and>
    (backend w tr (Commit sc sp pre uu) = Inr True \<and>
     backend w (tr @ [Commit sc sp pre uu]) (Pull dc dp) = Inl ProcessExecutionError \<longrightarrow>
       commit_and_update w s sys paths uu tr =
         (Inr (), tr @ [Commit sc sp pre uu, Pull dc dp, Status_out error_msg, Print_exc])) \<and>
    (\<forall>e. e \<noteq> ProcessExecutionError \<and> backend w tr (Commit sc sp pre uu) = Inl e \<longrightarrow>
       commit_and_update w s sys paths uu tr = (Inl e, tr @ [Commit sc sp pre uu])) \<and>
    (\<forall>e. e \<noteq> ProcessExecutionError \<and> backend w tr (Commit sc sp pre uu) = Inr True \<and>
         backend w (tr @ [Commit sc sp pre uu]) (Pull dc dp) = Inl e \<longrightarrow>
       commit_and_update w s sys paths uu tr = (Inl e, tr @ [Commit sc sp pre uu, Pull dc dp])) \<and>
    (\<forall>b. backend w tr (Commit sc sp pre uu) = Inr True \<and>
         backend w (tr @ [Commit sc sp pre uu]) (Pull dc dp) = Inr b \<longrightarrow>
       commit_and_update w s sys paths uu tr = (Inr (), tr @ [Commit sc sp pre uu, Pull dc dp])) \<and>
    (backend w tr (Commit sc sp pre uu) = Inr False \<longrightarrow>
       commit_and_update w s sys paths uu tr = (Inr (), tr @ [Commit sc sp pre uu]))"
    unfolding c by simp
  from 0 1 2 3 4 show ?thesis by (intro conjI) (erule conjunct1 conjunct2 | assumption | blast)+
qed

theorem commit_and_pull_guarded_witness:
  "backend pull_fails_world [] (Commit Local ''work'' ''.'' False) = Inr True \<and>
   backend pull_fails_world [Commit Local ''work'' ''.'' False] (Pull Remote ''/srv/work'') =
     Inl ProcessExecutionError \<and>
   commit_and_update pull_fails_world example_session ''local'' (Some {''a.txt''}) False [] =
     (Inr (), [Commit Local ''work'' ''.'' False, Pull Remote ''/srv/work'',
               Status_out error_msg, Print_exc]) \<and>
   sync_loop pull_fails_world example_session
     [TimeoutError, Got (Change ''local'' ''b.txt''), Got SHUTDOWN_STR]
     \<lparr>changed = [(''local'', {''a.txt''})], changed_ignore = {}\<rparr> [] =
   (Returned, \<lparr>changed = [(''local'', {''b.txt''})], changed_ignore = {}\<rparr>,
    [Commit Local ''work'' ''.'' False, Pull Remote ''/srv/work'', Status_out error_msg, Print_exc,
     Status_out (''changed local b.txt'' @ nl)])"
proof -
  let ?st = "\<lparr>changed = [(''local'', {''a.txt''})], changed_ignore = {}\<rparr>"
  let ?tr = "[Commit Local ''work'' ''.'' False, Pull Remote ''/srv/work'',
              Status_out error_msg, Print_exc]"
  have sel: "(Local, ''work'', Remote, ''/srv/work'') =
       (if ''local'' = ''local''
        then (Local, local_path example_session, Remote, remote_path example_session)
        else (Remote, remote_path example_session, Local, local_path example_session))"
    by (simp add: example_session_def)
  have "staging_prefix False (Some {''a.txt''}) = Inr ''.''" by code_simp
  then have pre: "staging_prefix (is_windows example_session Local) (Some {''a.txt''}) = Inr ''.''"
    by (simp add: example_session_def)
  have b1: "backend pull_fails_world [] (Commit Local ''work'' ''.'' False) = Inr True"
    and b2: "backend pull_fails_world [Commit Local ''work'' ''.'' False] (Pull Remote ''/srv/work'') =
     Inl ProcessExecutionError"
    by (simp_all add: pull_fails_world_def example_world_def)
  note g = commit_and_pull_guarded [OF sel pre, where w = pull_fails_world and tr = "[]"
      and uu = False and st = ?st
      and arrivals = "[Got (Change ''local'' ''b.txt''), Got SHUTDOWN_STR]"]
  from g b1 b2
  have cu: "commit_and_update pull_fails_world example_session ''local'' (Some {''a.txt''}) False [] =
     (Inr (), ?tr)"
    by simp
  then have fl: "flush pull_fails_world example_session (changed_ignore ?st) (changed ?st) [] =
     (Inr (), ?tr)"
    by (simp add: pthen_apply returns_apply)
  from g fl
  have step: "sync_loop pull_fails_world example_session
       (TimeoutError # [Got (Change ''local'' ''b.txt''), Got SHUTDOWN_STR]) ?st [] =
     sync_loop pull_fails_world example_session [Got (Change ''local'' ''b.txt''), Got SHUTDOWN_STR]
       (?st\<lparr>changed := [], changed_ignore := {}\<rparr>) ?tr"
    by simp
  have oc: "on_change example_session ''local'' ''b.txt'' \<lparr>changed = [], changed_ignore = {}\<rparr> ?tr =
      (Inr \<lparr>changed = [(''local'', {''b.txt''})], changed_ignore = {}\<rparr>,
       ?tr @ [Status_out (''changed local b.txt'' @ nl)])"
    by (simp add: on_change_def Let_def prog_simps example_session_def)
  from step oc have "sync_loop pull_fails_world example_session
     [TimeoutError, Got (Change ''local'' ''b.txt''), Got SHUTDOWN_STR] ?st [] =
   (Returned, \<lparr>changed = [(''local'', {''b.txt''})], changed_ignore = {}\<rparr>,
    ?tr @ [Status_out (''changed local b.txt'' @ nl)])"
    by simp
  with b1 b2 cu show ?thesis by simp
qed

text \<open>
  C3 as the claim words it, the failure of the pull on the other node passing through
  and ending the session, fails where the commit makes a revision and the pull raises a
  \<open>ProcessExecutionError\<close>: the operation returns.
\<close>

theorem pull_failure_counterexample:
  "backend pull_fails_world [Commit Local ''work'' ''.'' True] (Pull Remote ''/srv/work'') =
     Inl ProcessExecutionError \<and>
   Pull Remote ''/srv/work'' \<in>
     set (snd (commit_and_update pull_fails_world example_session ''local'' None True [])) \<and>
   fst (commit_and_update pull_fails_world example_session ''local'' None True []) = Inr () \<and>
   fst (commit_and_update pull_fails_world example_session ''local'' None True []) \<noteq>
     Inl ProcessExecutionError"
  by (simp add: commit_and_update_def staging_prefix_def try_except_apply prog_simps call_apply
      pull_fails_world_def example_world_def example_session_def)

section \<open>The sentinel\<close>

lemma sync_loop_sentinel_reached:
  "fst (sync_loop w s (before @ Got SHUTDOWN_STR # arrivals) st tr) \<noteq> Waiting"
proof (induction before arbitrary: st tr)
  case Nil
  then show ?case by simp
next
  case (Cons a before)
  show ?case
  proof (cases a)
    case TimeoutError
    with Cons show ?thesis
      by (auto split: prod.splits sum.splits)
  next
    case (Got ev)
    show ?thesis
    proof (cases ev)
      case SHUTDOWN_STR
      with Got show ?thesis by simp
    next
      case (Change system path)
      with Got Cons show ?thesis
        by (auto split: prod.splits sum.splits)
    qed
  qed
qed

lemma sync_loop_after_sentinel:
  "sync_loop w s (before @ Got SHUTDOWN_STR # arrivals) st tr =
     sync_loop w s (before @ [Got SHUTDOWN_STR]) st tr"
proof (induction before arbitrary: st tr)
  case Nil
  then show ?case by simp
next
  case (Cons a before)
  show ?case
  proof (cases a)
    case TimeoutError
    with Cons show ?thesis
      by (auto split: prod.splits sum.splits)
  next
    case (Got ev)
    show ?thesis
    proof (cases ev)
      case SHUTDOWN_STR
      with Got show ?thesis by simp
    next
      case (Change system path)
      with Got Cons show ?thesis
        by (auto split: prod.splits sum.splits)
    qed
  qed
qed

lemma sync_loop_returned:
  "fst (sync_loop w s arrivals st tr) = Returned \<Longrightarrow> Got SHUTDOWN_STR \<in> set arrivals"
proof (induction w s arrivals st tr rule: sync_loop.induct)
  case (1 w s st tr)
  then show ?case by simp
next
  case (2 w s arrivals st tr)
  then show ?case by (auto split: if_splits prod.splits sum.splits)
next
  case (3 w s arrivals st tr)
  then show ?case by simp
next
  case (4 w s system path arrivals st tr)
  then show ?case by (auto split: prod.splits sum.splits)
qed

text \<open>
  C6. When the loop takes the sentinel from the queue it ends at once, whatever is
  pending: state and actions are as they were, and nothing that the queue holds after
  the sentinel is looked at. If the sentinel is among the arrivals, the loop does not
  go on waiting: it has returned, or an exception ended it before. The loop returns only
  by the sentinel.
\<close>

theorem sentinel_ends_loop:
  "sync_loop w s (Got SHUTDOWN_STR # arrivals) st tr = (Returned, st, tr) \<and>
   fst (sync_loop w s (before @ Got SHUTDOWN_STR # arrivals) st tr) \<noteq> Waiting \<and>
   sync_loop w s (before @ Got SHUTDOWN_STR # arrivals) st tr =
     sync_loop w s (before @ [Got SHUTDOWN_STR]) st tr \<and>
   (fst (sync_loop w s arrivals st tr) = Returned \<longrightarrow> Got SHUTDOWN_STR \<in> set arrivals)"
  using sync_loop_sentinel_reached [of w s before arrivals st tr]
    sync_loop_after_sentinel [of w s before arrivals st tr]
    sync_loop_returned [of w s arrivals st tr]
  by (intro conjI impI) simp_all

theorem sentinel_ends_loop_witness:
  "sync_loop example_world example_session
     [Got (Change ''local'' ''notes.txt''), Got SHUTDOWN_STR, Got (Change ''local'' ''later.txt'')]
     \<lparr>changed = [], changed_ignore = {}\<rparr> [] =
   (Returned, \<lparr>changed = [(''local'', {''notes.txt''})], changed_ignore = {}\<rparr>,
    [Status_out (''changed local notes.txt'' @ nl)]) \<and>
   Got SHUTDOWN_STR \<in> set [Got (Change ''local'' ''notes.txt''), Got SHUTDOWN_STR,
                              Got (Change ''local'' ''later.txt'')]"
proof -
  let ?st = "\<lparr>changed = [], changed_ignore = {}\<rparr>"
  have oc: "on_change example_session ''local'' ''notes.txt'' ?st [] =
      (Inr \<lparr>changed = [(''local'', {''notes.txt''})], changed_ignore = {}\<rparr>,
       [Status_out (''changed local notes.txt'' @ nl)])"
    by (simp add: on_change_def Let_def prog_simps example_session_def)
  from sentinel_ends_loop [of example_world example_session
      "[Got (Change ''local'' ''later.txt'')]"
      "\<lparr>changed = [(''local'', {''notes.txt''})], changed_ignore = {}\<rparr>"
      "[Status_out (''changed local notes.txt'' @ nl)]"
      "[Got (Change ''local'' ''notes.txt'')]"]
  have "sync_loop example_world example_session
          (Got SHUTDOWN_STR # [Got (Change ''local'' ''later.txt'')])
          \<lparr>changed = [(''local'', {''notes.txt''})], changed_ignore = {}\<rparr>
          [Status_out (''changed local notes.txt'' @ nl)] =
        (Returned, \<lparr>changed = [(''local'', {''notes.txt''})], changed_ignore = {}\<rparr>,
         [Status_out (''changed local notes.txt'' @ nl)])"
    by (rule conjunct1)
  with oc show ?thesis by simp
qed

lemma on_change_grows:
  "\<exists>st' msg. on_change s system path st tr = (Inr st', tr @ [Status_out msg]) \<and>
     (\<forall>sys paths. map_of (changed st) sys = Some paths \<longrightarrow>
        (\<exists>paths'. map_of (changed st') sys = Some paths' \<and> paths \<subseteq> paths')) \<and>
     (changed st \<noteq> [] \<longrightarrow> changed st' \<noteq> [])"
proof (cases "''.gut'' \<in> set (split (os_sep s) path)")
  case True
  then show ?thesis by (simp add: on_change_dropped)
next
  case False
  from on_change_merged [OF False, of system st tr]
  obtain st' msg where st': "on_change s system path st tr = (Inr st', tr @ [Status_out msg])"
    "map_of (changed st') =
       (map_of (changed st))(system \<mapsto>
          insert path (case map_of (changed st) system of None \<Rightarrow> {} | Some P \<Rightarrow> P))"
    by blast
  have "\<exists>paths'. map_of (changed st') sys = Some paths' \<and> paths \<subseteq> paths'"
    if "map_of (changed st) sys = Some paths" for sys paths
    using that st'(2) by (cases "sys = system") auto
  moreover have "changed st' \<noteq> []"
  proof
    assume "changed st' = []"
    then have "map_of (changed st') system = None" by simp
    with st'(2) show False by simp
  qed
  ultimately show ?thesis using st'(1) by blast
qed

text \<open>
  C10. If only change events arrive before the sentinel, so that no debounce window
  passes, the loop returns having run no commit and no pull: the only actions are the
  log lines of the events, and what was pending, grown by the events, is still pending
  when the loop ends.
\<close>

theorem shutdown_discards_pending:
  assumes "\<forall>a\<in>set events. \<exists>system path. a = Got (Change system path)"
  shows "\<exists>st' logs.
     sync_loop w s (events @ Got SHUTDOWN_STR # arrivals) st tr = (Returned, st', tr @ logs) \<and>
     filter is_commit logs = [] \<and> filter is_pull logs = [] \<and>
     (\<forall>a\<in>set logs. is_status_out a) \<and>
     (\<forall>sys paths. map_of (changed st) sys = Some paths \<longrightarrow>
        (\<exists>paths'. map_of (changed st') sys = Some paths' \<and> paths \<subseteq> paths')) \<and>
     (changed st \<noteq> [] \<longrightarrow> changed st' \<noteq> [])"
  using assms
proof (induction events arbitrary: st tr)
  case Nil
  have "sync_loop w s ([] @ Got SHUTDOWN_STR # arrivals) st tr = (Returned, st, tr @ [])"
    by simp
  then show ?case by fastforce
next
  case (Cons a events)
  then obtain system path where a: "a = Got (Change system path)" by auto
  from on_change_grows [of s system path st tr]
  obtain st1 msg where st1: "on_change s system path st tr = (Inr st1, tr @ [Status_out msg])"
    and grows1: "\<forall>sys paths. map_of (changed st) sys = Some paths \<longrightarrow>
        (\<exists>paths'. map_of (changed st1) sys = Some paths' \<and> paths \<subseteq> paths')"
    and ne1: "changed st \<noteq> [] \<longrightarrow> changed st1 \<noteq> []"
    by blast
  from Cons.prems have "\<forall>a\<in>set events. \<exists>system path. a = Got (Change system path)" by simp
  from Cons.IH [OF this, of st1 "tr @ [Status_out msg]"]
  obtain st' logs where st': "sync_loop w s (events @ Got SHUTDOWN_STR # arrivals) st1
        (tr @ [Status_out msg]) = (Returned, st', (tr @ [Status_out msg]) @ logs)"
    and logs: "filter is_commit logs = []" "filter is_pull logs = []" "\<forall>a\<in>set logs. is_status_out a"
    and grows2: "\<forall>sys paths. map_of (changed st1) sys = Some paths \<longrightarrow>
        (\<exists>paths'. map_of (changed st') sys = Some paths' \<and> paths \<subseteq> paths')"
    and ne2: "changed st1 \<noteq> [] \<longrightarrow> changed st' \<noteq> []"
    by blast
  let ?logs = "Status_out msg # logs"
  from a st1 st' have run: "sync_loop w s ((a # events) @ Got SHUTDOWN_STR # arrivals) st tr =
      (Returned, st', tr @ ?logs)"
    by simp
  from logs have l: "filter is_commit ?logs = []" "filter is_pull ?logs = []"
    "\<forall>a\<in>set ?logs. is_status_out a"
    by simp_all
  have grows: "\<forall>sys paths. map_of (changed st) sys = Some paths \<longrightarrow>
        (\<exists>paths'. map_of (changed st') sys = Some paths' \<and> paths \<subseteq> paths')"
  proof (intro allI impI)
    fix sys paths
    assume "map_of (changed st) sys = Some paths"
    with grows1 obtain p1 where p1: "map_of (changed st1) sys = Some p1" "paths \<subseteq> p1" by blast
    with grows2 obtain p2 where "map_of (changed st') sys = Some p2" "p1 \<subseteq> p2" by blast
    with p1 show "\<exists>paths'. map_of (changed st') sys = Some paths' \<and> paths \<subseteq> paths'" by blast
  qed
  from ne1 ne2 have ne: "changed st \<noteq> [] \<longrightarrow> changed st' \<noteq> []" by blast
  from run l grows ne show ?case by blast
qed

theorem shutdown_discards_pending_witness:
  "(\<exists>st' logs.
      sync_loop example_world example_session
        [Got (Change ''local'' ''b.txt''), Got SHUTDOWN_STR, TimeoutError]
        \<lparr>changed = [(''local'', {''a.txt''})], changed_ignore = {}\<rparr> [] = (Returned, st', logs) \<and>
      filter is_commit logs = [] \<and> filter is_pull logs = [] \<and>
      changed st' \<noteq> []) \<and>
   changed \<lparr>changed = [(''local'', {''a.txt''})], changed_ignore = {}\<rparr> \<noteq> []"
proof -
  have ev: "\<forall>a\<in>set [Got (Change ''local'' ''b.txt'')]. \<exists>system path. a = Got (Change system path)"
    by simp
  from shutdown_discards_pending [OF ev, of example_world example_session "[TimeoutError]"
      "\<lparr>changed = [(''local'', {''a.txt''})], changed_ignore = {}\<rparr>" "[]"]
  show ?thesis by auto
qed

section \<open>Before the loop\<close>

lemma initial_flush_side:
  assumes sel: "(sc, sp, dc, dp) =
       (if sys = ''local'' then (Local, local_path s, Remote, remote_path s)
        else (Remote, remote_path s, Local, local_path s))"
  shows "\<exists>rest. snd (commit_and_update w s sys None True tr) = tr @ Commit sc sp ''.'' True # rest \<and>
           filter is_commit rest = []"
proof -
  have "staging_prefix (is_windows s sc) None = Inr ''.''"
    by (simp add: staging_prefix_def)
  from commit_and_update_starts [OF sel this, of w True tr]
  show ?thesis by blast
qed

lemma sync_before_loop_trace:
  assumes "fst (sync_before_loop w s tr) = Inr ()"
  shows "\<exists>mid. snd (sync_before_loop w s tr) =
            tr @ [Watch_for_changes Local (local_path s) ''local'',
                  Watch_for_changes Remote (remote_path s) ''remote''] @ mid @
                 [Pull Remote (remote_path s), Pull Local (local_path s)] \<and>
           filter is_commit mid =
             [Commit Remote (remote_path s) ''.'' True, Commit Local (local_path s) ''.'' True]"
proof -
  let ?W1 = "Watch_for_changes Local (local_path s) ''local''"
  let ?W2 = "Watch_for_changes Remote (remote_path s) ''remote''"
  let ?tr2 = "tr @ [?W1, ?W2]"
  obtain r1 tr3 where cu1: "commit_and_update w s ''remote'' None True ?tr2 = (r1, tr3)"
    by (cases "commit_and_update w s ''remote'' None True ?tr2")
  obtain r2 tr4 where cu2: "commit_and_update w s ''local'' None True tr3 = (r2, tr4)"
    by (cases "commit_and_update w s ''local'' None True tr3")
  have "(Remote, remote_path s, Local, local_path s) =
       (if ''remote'' = ''local'' then (Local, local_path s, Remote, remote_path s)
        else (Remote, remote_path s, Local, local_path s))"
    by simp
  from initial_flush_side [OF this, of w ?tr2] cu1
  obtain rest1 where rest1: "tr3 = ?tr2 @ Commit Remote (remote_path s) ''.'' True # rest1"
    "filter is_commit rest1 = []"
    by auto
  have "(Local, local_path s, Remote, remote_path s) =
       (if ''local'' = ''local'' then (Local, local_path s, Remote, remote_path s)
        else (Remote, remote_path s, Local, local_path s))"
    by simp
  from initial_flush_side [OF this, of w tr3] cu2
  obtain rest2 where rest2: "tr4 = tr3 @ Commit Local (local_path s) ''.'' True # rest2"
    "filter is_commit rest2 = []"
    by auto
  let ?mid = "Commit Remote (remote_path s) ''.'' True # rest1 @
              Commit Local (local_path s) ''.'' True # rest2"
  from assms cu1 cu2
  have "snd (sync_before_loop w s tr) =
      tr4 @ [Pull Remote (remote_path s), Pull Local (local_path s)]"
    by (auto simp: sync_before_loop_def prog_simps split: sum.splits)
  with rest1 rest2
  have "snd (sync_before_loop w s tr) =
      tr @ [?W1, ?W2] @ ?mid @ [Pull Remote (remote_path s), Pull Local (local_path s)]"
    by simp
  moreover from rest1 rest2 have "filter is_commit ?mid =
      [Commit Remote (remote_path s) ''.'' True, Commit Local (local_path s) ''.'' True]"
    by simp
  ultimately show ?thesis by blast
qed

text \<open>
  C7. When lines 319 to 327 return, they have attached the two watchers, then committed
  exactly twice, once on the remote and once on the local side, each time on the whole
  tree with \<open>update_untracked=True\<close>, and their last two actions are the pull on the
  remote and the pull on the local side. The loop starts after them, with nothing
  pending; it does not start when they raise. They return when no command raises.
\<close>

theorem flush_and_pull_before_loop:
  "(fst (sync_before_loop w s tr) = Inr () \<longrightarrow>
      (\<exists>mid. snd (sync_before_loop w s tr) =
            tr @ [Watch_for_changes Local (local_path s) ''local'',
                  Watch_for_changes Remote (remote_path s) ''remote''] @ mid @
                 [Pull Remote (remote_path s), Pull Local (local_path s)] \<and>
           filter is_commit mid =
             [Commit Remote (remote_path s) ''.'' True, Commit Local (local_path s) ''.'' True]) \<and>
      sync_watch w s arrivals tr =
        sync_loop w s arrivals \<lparr>changed = [], changed_ignore = {}\<rparr>
          (snd (sync_before_loop w s tr))) \<and>
   (\<forall>e. fst (sync_before_loop w s tr) = Inl e \<longrightarrow>
      sync_watch w s arrivals tr =
        (Raised e, \<lparr>changed = [], changed_ignore = {}\<rparr>, snd (sync_before_loop w s tr))) \<and>
   ((\<forall>tr' a e. backend w tr' a \<noteq> Inl e) \<longrightarrow> fst (sync_before_loop w s tr) = Inr ())"
proof (intro conjI impI allI)
  assume ok: "fst (sync_before_loop w s tr) = Inr ()"
  then show "\<exists>mid. snd (sync_before_loop w s tr) =
            tr @ [Watch_for_changes Local (local_path s) ''local'',
                  Watch_for_changes Remote (remote_path s) ''remote''] @ mid @
                 [Pull Remote (remote_path s), Pull Local (local_path s)] \<and>
           filter is_commit mid =
             [Commit Remote (remote_path s) ''.'' True, Commit Local (local_path s) ''.'' True]"
    by (rule sync_before_loop_trace)
  from ok show "sync_watch w s arrivals tr =
        sync_loop w s arrivals \<lparr>changed = [], changed_ignore = {}\<rparr>
          (snd (sync_before_loop w s tr))"
    by (cases "sync_before_loop w s tr") (simp add: sync_watch_def)
next
  fix e
  assume "fst (sync_before_loop w s tr) = Inl e"
  then show "sync_watch w s arrivals tr =
        (Raised e, \<lparr>changed = [], changed_ignore = {}\<rparr>, snd (sync_before_loop w s tr))"
    by (cases "sync_before_loop w s tr") (simp add: sync_watch_def)
next
  assume ok: "\<forall>tr' a e. backend w tr' a \<noteq> Inl e"
  have run: "run w a tr' = (Inr (), tr' @ [a])" for a tr'
    using ok by (cases "backend w tr' a") (simp_all add: run_apply)
  have cu: "fst (commit_and_update w s sys None True tr') = Inr ()" for sys tr'
  proof -
    obtain sc sp dc dp where sel: "(sc, sp, dc, dp) =
       (if sys = ''local'' then (Local, local_path s, Remote, remote_path s)
        else (Remote, remote_path s, Local, local_path s))"
      by (metis prod_cases4)
    have pre: "staging_prefix (is_windows s sc) None = Inr ''.''"
      by (simp add: staging_prefix_def)
    show ?thesis
      unfolding commit_and_update_cases [OF sel pre]
      using ok by (simp split: sum.splits)
  qed
  obtain tr3 where cu1: "commit_and_update w s ''remote'' None True
      (tr @ [Watch_for_changes Local (local_path s) ''local'',
             Watch_for_changes Remote (remote_path s) ''remote'']) = (Inr (), tr3)"
    using cu [of "''remote''"] by (metis prod.collapse)
  obtain tr4 where cu2: "commit_and_update w s ''local'' None True tr3 = (Inr (), tr4)"
    using cu [of "''local''" tr3] by (metis prod.collapse)
  show "fst (sync_before_loop w s tr) = Inr ()"
    by (simp add: sync_before_loop_def pthen_apply run cu1 cu2)
qed

theorem flush_and_pull_before_loop_witness:
  "(\<forall>tr' a e. backend example_world tr' a \<noteq> Inl e) \<and>
   sync_before_loop example_world example_session [] =
     (Inr (), [Watch_for_changes Local ''work'' ''local'',
               Watch_for_changes Remote ''/srv/work'' ''remote'',
               Commit Remote ''/srv/work'' ''.'' True, Pull Local ''work'',
               Commit Local ''work'' ''.'' True, Pull Remote ''/srv/work'',
               Pull Remote ''/srv/work'', Pull Local ''work'']) \<and>
   sync_watch example_world example_session [Got SHUTDOWN_STR] [] =
     (Returned, \<lparr>changed = [], changed_ignore = {}\<rparr>,
      [Watch_for_changes Local ''work'' ''local'',
       Watch_for_changes Remote ''/srv/work'' ''remote'',
       Commit Remote ''/srv/work'' ''.'' True, Pull Local ''work'',
       Commit Local ''work'' ''.'' True, Pull Remote ''/srv/work'',
       Pull Remote ''/srv/work'', Pull Local ''work''])"
proof -
  have ok: "\<forall>tr' a e. backend example_world tr' a \<noteq> Inl e"
    by (simp add: example_world_def)
  have v: "sync_before_loop example_world example_session [] =
     (Inr (), [Watch_for_changes Local ''work'' ''local'',
               Watch_for_changes Remote ''/srv/work'' ''remote'',
               Commit Remote ''/srv/work'' ''.'' True, Pull Local ''work'',
               Commit Local ''work'' ''.'' True, Pull Remote ''/srv/work'',
               Pull Remote ''/srv/work'', Pull Local ''work''])"
    by (simp add: sync_before_loop_def commit_and_update_def staging_prefix_def try_except_apply
        prog_simps call_apply example_world_def example_session_def)
  from flush_and_pull_before_loop [of example_world example_session "[]" "[Got SHUTDOWN_STR]"] v
  have "sync_watch example_world example_session [Got SHUTDOWN_STR] [] =
     (Returned, \<lparr>changed = [], changed_ignore = {}\<rparr>,
      [Watch_for_changes Local ''work'' ''local'',
       Watch_for_changes Remote ''/srv/work'' ''remote'',
       Commit Remote ''/srv/work'' ''.'' True, Pull Local ''work'',
       Commit Local ''work'' ''.'' True, Pull Remote ''/srv/work'',
       Pull Remote ''/srv/work'', Pull Local ''work''])"
    by simp
  with ok v show ?thesis by simp
qed

end
